theory Spec2Isabelle
  imports Main "HOL-Library.Word"
begin

unbundle bit_operations_syntax

section \<open>Pages and their headers\<close>

text \<open>
  A shallow embedding of \<^verbatim>\<open>src/data.c\<close> of pg_probackup: page validation, page
  retrieval with re-reads, the frame writer, the backup of one data file, its restore and
  its validation.

  A page is the content of a \<^verbatim>\<open>char[BLCKSZ]\<close> buffer; a \<^verbatim>\<open>Page\<close> argument that may be
  \<^verbatim>\<open>NULL\<close> is a \<open>page option\<close>. The header fields are read from the bytes the way the
  \<^verbatim>\<open>PageHeaderData\<close> overlay of the engine reads them on a little-endian host:
  \<^verbatim>\<open>pd_lsn\<close> (xlogid, xrecoff) at offsets 0 and 4, \<^verbatim>\<open>pd_checksum\<close> at 8, \<^verbatim>\<open>pd_flags\<close> at 10,
  \<^verbatim>\<open>pd_lower\<close> at 12, \<^verbatim>\<open>pd_upper\<close> at 14, \<^verbatim>\<open>pd_special\<close> at 16 and
  \<^verbatim>\<open>pd_pagesize_version\<close> at 18. The engine's constants (\<^verbatim>\<open>BLCKSZ\<close>,
  \<^verbatim>\<open>SizeOfPageHeaderData\<close>, \<^verbatim>\<open>PD_VALID_FLAG_BITS\<close>, \<^verbatim>\<open>MAXALIGN\<close>) come from the engine's
  headers, which are not part of this repository; they have the values of a stock build.
\<close>

type_synonym byte = "8 word"
type_synonym page = "byte list"
type_synonym XLogRecPtr = "64 word"
type_synonym BlockNumber = "32 word"
type_synonym pg_crc32 = "32 word"

definition BLCKSZ :: nat where
  "BLCKSZ = 8192"

definition SizeOfPageHeaderData :: nat where
  "SizeOfPageHeaderData = 24"

definition PD_VALID_FLAG_BITS :: "16 word" where
  "PD_VALID_FLAG_BITS = 0x0007"

definition RELSEG_SIZE :: int where
  "RELSEG_SIZE = 131072"

text \<open>
  \<^verbatim>\<open>MAXALIGN(LEN)\<close> is \<^verbatim>\<open>((uintptr_t) (LEN) + 7) & ~((uintptr_t) 7)\<close>: the argument is
  converted to a 64-bit unsigned value (a negative \<^verbatim>\<open>int32\<close> wraps), 7 is added modulo
  \<open>2^64\<close> and the low three bits are cleared.
\<close>

definition MAXALIGN :: "int \<Rightarrow> nat" where
  "MAXALIGN LEN = nat (((LEN mod 2 ^ 64 + 7) mod 2 ^ 64) div 8 * 8)"

definition get_u16 :: "page \<Rightarrow> nat \<Rightarrow> 16 word" where
  "get_u16 p off = (ucast (p ! off) :: 16 word) OR push_bit 8 (ucast (p ! (off + 1)) :: 16 word)"

definition get_u32 :: "page \<Rightarrow> nat \<Rightarrow> 32 word" where
  "get_u32 p off =
     (ucast (p ! off) :: 32 word) OR push_bit 8 (ucast (p ! (off + 1)) :: 32 word)
       OR push_bit 16 (ucast (p ! (off + 2)) :: 32 word)
       OR push_bit 24 (ucast (p ! (off + 3)) :: 32 word)"

definition pd_checksum :: "page \<Rightarrow> 16 word" where
  "pd_checksum p = get_u16 p 8"

definition pd_flags :: "page \<Rightarrow> 16 word" where
  "pd_flags p = get_u16 p 10"

definition pd_lower :: "page \<Rightarrow> 16 word" where
  "pd_lower p = get_u16 p 12"

definition pd_upper :: "page \<Rightarrow> 16 word" where
  "pd_upper p = get_u16 p 14"

definition pd_special :: "page \<Rightarrow> 16 word" where
  "pd_special p = get_u16 p 16"

definition pd_pagesize_version :: "page \<Rightarrow> 16 word" where
  "pd_pagesize_version p = get_u16 p 18"

text \<open>\<^verbatim>\<open>PageGetPageSize(phdr)\<close> is \<^verbatim>\<open>phdr->pd_pagesize_version & 0xFF00\<close>.\<close>

definition PageGetPageSize :: "page \<Rightarrow> nat" where
  "PageGetPageSize p = unat (pd_pagesize_version p AND 0xFF00)"

text \<open>\<^verbatim>\<open>PageXLogRecPtrGet(val)\<close> is \<^verbatim>\<open>(uint64) val.xlogid << 32 | val.xrecoff\<close>.\<close>

definition PageXLogRecPtrGet :: "page \<Rightarrow> XLogRecPtr" where
  "PageXLogRecPtrGet p =
     push_bit 32 (ucast (get_u32 p 0) :: 64 word) OR (ucast (get_u32 p 4) :: 64 word)"

section \<open>Compression algorithms and the legacy heuristic\<close>

datatype CompressAlg = NOT_DEFINED_COMPRESS | NONE_COMPRESS | PGLZ_COMPRESS | ZLIB_COMPRESS

definition ZLIB_MAGIC :: byte where
  "ZLIB_MAGIC = 0x78"

text \<open>
  \<^verbatim>\<open>page_may_be_compressed\<close>, in a build with \<^verbatim>\<open>HAVE_LIBZ\<close> (the build this theory
  models throughout). The page is the \<^verbatim>\<open>BLCKSZ\<close> buffer the frame's payload was read into.
\<close>

definition page_may_be_compressed :: "page \<Rightarrow> CompressAlg \<Rightarrow> nat \<Rightarrow> bool" where
  "page_may_be_compressed p alg backup_version =
     (if \<not> (PageGetPageSize p = BLCKSZ \<and>
             pd_flags p AND NOT PD_VALID_FLAG_BITS = 0 \<and>
             unat (pd_lower p) \<ge> SizeOfPageHeaderData \<and>
             unat (pd_lower p) \<le> unat (pd_upper p) \<and>
             unat (pd_upper p) \<le> unat (pd_special p) \<and>
             unat (pd_special p) \<le> BLCKSZ \<and>
             unat (pd_special p) = MAXALIGN (uint (pd_special p)))
      then
        (if backup_version \<ge> 20023 then False
         else if alg = ZLIB_COMPRESS \<and> p ! 0 \<noteq> ZLIB_MAGIC then False
         else True)
      else False)"

section \<open>Page validation\<close>

text \<open>\<^verbatim>\<open>parse_page\<close>: the verdict on the header and the value stored into \<^verbatim>\<open>*lsn\<close>.\<close>

definition parse_page :: "page \<Rightarrow> bool \<times> XLogRecPtr" where
  "parse_page p =
     (if PageGetPageSize p = BLCKSZ \<and>
         pd_flags p AND NOT PD_VALID_FLAG_BITS = 0 \<and>
         unat (pd_lower p) \<ge> SizeOfPageHeaderData \<and>
         unat (pd_lower p) \<le> unat (pd_upper p) \<and>
         unat (pd_upper p) \<le> unat (pd_special p) \<and>
         unat (pd_special p) \<le> BLCKSZ \<and>
         unat (pd_special p) = MAXALIGN (uint (pd_special p))
      then (True, PageXLogRecPtrGet p)
      else (False, PageXLogRecPtrGet p))"

datatype page_class =
    PAGE_IS_NOT_FOUND
  | PAGE_IS_ZEROED
  | PAGE_IS_VALID
  | PAGE_HEADER_IS_INVALID
  | PAGE_CHECKSUM_MISMATCH
  | PAGE_LSN_FROM_FUTURE

text \<open>The scan \<^verbatim>\<open>for (i = 0; i < BLCKSZ && page[i] == 0; i++);\<close>: the final \<^verbatim>\<open>i\<close>.\<close>

function zero_scan :: "page \<Rightarrow> nat \<Rightarrow> nat" where
  "zero_scan p i = (if i < BLCKSZ \<and> p ! i = 0 then zero_scan p (i + 1) else i)"
  by pat_completeness auto
termination
  by (relation "measure (\<lambda>(p, i). BLCKSZ - i)") auto

declare zero_scan.simps [simp del]

text \<open>
  \<^verbatim>\<open>validate_one_page\<close>. The engine's page checksum \<^verbatim>\<open>pg_checksum_page\<close> is an argument
  (\<open>cksum\<close>); \<open>lsn0\<close> is what \<^verbatim>\<open>*page_lsn\<close> held on entry, and the second component of the
  result is what it holds on return.
\<close>

definition validate_one_page ::
  "(page \<Rightarrow> BlockNumber \<Rightarrow> 16 word) \<Rightarrow> page option \<Rightarrow> BlockNumber \<Rightarrow> XLogRecPtr \<Rightarrow>
   XLogRecPtr \<Rightarrow> nat \<Rightarrow> page_class \<times> XLogRecPtr" where
  "validate_one_page cksum pg absolute_blkno stop_lsn lsn0 checksum_version =
     (case pg of
        None \<Rightarrow> (PAGE_IS_NOT_FOUND, lsn0)
      | Some p \<Rightarrow>
          (let (ok, page_lsn) = parse_page p in
           if \<not> ok then
             (if zero_scan p 0 = BLCKSZ then (PAGE_IS_ZEROED, page_lsn)
              else (PAGE_HEADER_IS_INVALID, page_lsn))
           else if checksum_version \<noteq> 0 \<and> cksum p absolute_blkno \<noteq> pd_checksum p
             then (PAGE_CHECKSUM_MISMATCH, page_lsn)
           else if stop_lsn > 0 \<and> page_lsn > stop_lsn
             then (PAGE_LSN_FROM_FUTURE, page_lsn)
           else (PAGE_IS_VALID, page_lsn)))"

text \<open>
  The classification rules as the specification words them (section 4.2), to be compared
  with \<^const>\<open>validate_one_page\<close>: the header invariants of the data model, and the rules
  in their order.
\<close>

definition header_invariants :: "page \<Rightarrow> bool" where
  "header_invariants p \<longleftrightarrow>
     PageGetPageSize p = BLCKSZ \<and>
     pd_flags p AND NOT PD_VALID_FLAG_BITS = 0 \<and>
     SizeOfPageHeaderData \<le> unat (pd_lower p) \<and>
     unat (pd_lower p) \<le> unat (pd_upper p) \<and>
     unat (pd_upper p) \<le> unat (pd_special p) \<and>
     unat (pd_special p) \<le> BLCKSZ \<and>
     unat (pd_special p) mod 8 = 0"

definition all_bytes_zero :: "page \<Rightarrow> bool" where
  "all_bytes_zero p \<longleftrightarrow> (\<forall>i \<in> {0..<BLCKSZ}. p ! i = 0)"

definition spec_classification ::
  "(page \<Rightarrow> BlockNumber \<Rightarrow> 16 word) \<Rightarrow> page option \<Rightarrow> BlockNumber \<Rightarrow> XLogRecPtr \<Rightarrow>
   bool \<Rightarrow> page_class" where
  "spec_classification cksum pg absolute_blkno stop_lsn checksums_enabled =
     (case pg of
        None \<Rightarrow> PAGE_IS_NOT_FOUND
      | Some p \<Rightarrow>
          if \<not> header_invariants p then
            (if all_bytes_zero p then PAGE_IS_ZEROED else PAGE_HEADER_IS_INVALID)
          else if checksums_enabled \<and> cksum p absolute_blkno \<noteq> pd_checksum p
            then PAGE_CHECKSUM_MISMATCH
          else if stop_lsn > 0 \<and> PageXLogRecPtrGet p > stop_lsn then PAGE_LSN_FROM_FUTURE
          else PAGE_IS_VALID)"

section \<open>File records, modes and messages\<close>

datatype BackupMode =
    BACKUP_MODE_INVALID
  | BACKUP_MODE_DIFF_PAGE
  | BACKUP_MODE_DIFF_PTRACK
  | BACKUP_MODE_DIFF_DELTA
  | BACKUP_MODE_FULL

text \<open>
  The fields of \<^verbatim>\<open>pgFile\<close> that \<^verbatim>\<open>data.c\<close> reads or writes (\<^verbatim>\<open>size\<close> is \<open>file_size\<close>
  here). The page map is the pair \<^verbatim>\<open>pagemap.bitmap\<close> (a pointer that may be \<^verbatim>\<open>NULL\<close>) and
  \<^verbatim>\<open>pagemap.bitmapsize\<close>.
\<close>

record pgFile =
  file_size :: nat
  n_blocks :: int
  read_size :: int
  write_size :: int
  uncompressed_size :: int
  crc :: pg_crc32
  exists_in_prev :: bool
  pagemap_bitmap :: "byte list option"
  pagemap_bitmapsize :: int
  pagemap_isabsent :: bool
  compress_alg :: CompressAlg
  segno :: int

text \<open>
  The sentinels of \<^verbatim>\<open>write_size\<close> and of the page map are macros of \<^verbatim>\<open>pg_probackup.h\<close>,
  which is not among the sources; they have the values of that header.
\<close>

definition BYTES_INVALID :: int where
  "BYTES_INVALID = - 1"

definition FILE_NOT_FOUND :: int where
  "FILE_NOT_FOUND = - 2"

definition PageBitmapIsEmpty :: int where
  "PageBitmapIsEmpty = 0"

text \<open>
  Modelled from the spec: \<^verbatim>\<open>PAGE_READ_ATTEMPTS\<close> is a macro of \<^verbatim>\<open>pg_probackup.h\<close>, which
  is not among the sources; the specification gives it as 100, and so does the comment
  after the read loop of \<^verbatim>\<open>prepare_page\<close>.
\<close>

definition PAGE_READ_ATTEMPTS :: nat where
  "PAGE_READ_ATTEMPTS = 100"

datatype page_state = PageIsOk | PageIsTruncated | SkipCurrentPage | PageIsCorrupted

text \<open>What \<^verbatim>\<open>get_header_errormsg\<close> and \<^verbatim>\<open>get_checksum_errormsg\<close> format.\<close>

datatype errormsg =
    Page_size_not_block_size nat
  | Lower_less_than_header "16 word"
  | Lower_greater_than_upper "16 word" "16 word"
  | Upper_greater_than_special "16 word" "16 word"
  | Special_greater_than_block_size "16 word"
  | Special_misaligned "16 word" nat
  | Flags_contain_illegal_bits
  | Page_header_invalid
  | Page_verification_failed "16 word" "16 word"
  | Codec_error int
  | Invalid_compression_algorithm

text \<open>
  An \<^verbatim>\<open>elog\<close> call is its format string (shortened to the words that tell the calls
  apart) with the block number it prints, if any; the report of a corrupted page also
  carries the detail message. A call at level \<^verbatim>\<open>ERROR\<close> does not return: it is the
  \<open>Inl\<close> of a result. The other levels append to the log.
\<close>

datatype msg =
    Msg string
  | Msg_block string BlockNumber
  | Corruption_detected BlockNumber "errormsg option"

datatype elevel = VERBOSE | LOG | WARNING

type_synonym log = "(elevel \<times> msg) list"

definition get_header_errormsg :: "page \<Rightarrow> errormsg" where
  "get_header_errormsg p =
     (if PageGetPageSize p \<noteq> BLCKSZ then Page_size_not_block_size (PageGetPageSize p)
      else if unat (pd_lower p) < SizeOfPageHeaderData then Lower_less_than_header (pd_lower p)
      else if unat (pd_lower p) > unat (pd_upper p)
        then Lower_greater_than_upper (pd_lower p) (pd_upper p)
      else if unat (pd_upper p) > unat (pd_special p)
        then Upper_greater_than_special (pd_upper p) (pd_special p)
      else if unat (pd_special p) > BLCKSZ then Special_greater_than_block_size (pd_special p)
      else if unat (pd_special p) \<noteq> MAXALIGN (uint (pd_special p))
        then Special_misaligned (pd_special p) (MAXALIGN (uint (pd_special p)))
      else if pd_flags p AND NOT PD_VALID_FLAG_BITS \<noteq> 0 then Flags_contain_illegal_bits
      else Page_header_invalid)"

definition get_checksum_errormsg ::
  "(page \<Rightarrow> BlockNumber \<Rightarrow> 16 word) \<Rightarrow> page \<Rightarrow> BlockNumber \<Rightarrow> errormsg" where
  "get_checksum_errormsg cksum p absolute_blkno =
     Page_verification_failed (pd_checksum p) (cksum p absolute_blkno)"

section \<open>The environment of a run\<close>

text \<open>
  What the code obtains from outside \<^verbatim>\<open>data.c\<close> is an argument of the model, gathered in
  one record: the interrupt flags, the engine's page checksum, the positional read of the
  source file (by offset and by the number of the attempt within one \<^verbatim>\<open>prepare_page\<close>
  call, so that a re-read may return something else), the change tracker, the codecs, the
  three macros of the rolling file checksum, what an uninitialised stack buffer holds,
  which calls of the I/O layer fail, and the remote page transport \<^verbatim>\<open>fio_send_pages\<close> (its
  return code, the file record it leaves, the buffers it wrote to the output, and the block
  and message it reports). A codec returns its \<^verbatim>\<open>int32\<close> result and the bytes it
  left in the destination buffer.
\<close>

datatype pread_result = Pread_error | Pread_bytes "byte list"

datatype fopen_result = Fopen_ok | Fopen_ENOENT | Fopen_failed

datatype io_op =
    Op_fopen_out | Op_chmod | Op_fwrite | Op_fclose_out | Op_unlink
  | Op_ferror_in | Op_fflush | Op_fseek | Op_ftruncate

datatype send_rc = REMOTE_ERROR | PAGE_CORRUPTION | WRITE_FAILED | Blocks_read int

record env =
  interrupted :: bool
  pg_checksum_page :: "page \<Rightarrow> BlockNumber \<Rightarrow> 16 word"
  fio_pread :: "nat \<Rightarrow> nat \<Rightarrow> pread_result"
  pg_ptrack_get_block :: "BlockNumber \<Rightarrow> (byte list \<times> nat) option"
  pglz_compress :: "byte list \<Rightarrow> int \<times> byte list"
  zlib_compress :: "byte list \<Rightarrow> int \<Rightarrow> int \<times> byte list"
  pglz_decompress :: "byte list \<Rightarrow> int \<times> byte list"
  zlib_decompress :: "byte list \<Rightarrow> int \<times> byte list"
  INIT_FILE_CRC32 :: "bool \<Rightarrow> pg_crc32"
  COMP_FILE_CRC32 :: "bool \<Rightarrow> pg_crc32 \<Rightarrow> byte list \<Rightarrow> pg_crc32"
  FIN_FILE_CRC32 :: "bool \<Rightarrow> pg_crc32 \<Rightarrow> pg_crc32"
  uninit :: "nat \<Rightarrow> byte"
  fopen_in :: fopen_result
  fio_is_remote_file :: bool
  io_fails :: "io_op \<Rightarrow> bool"
  fio_send_pages ::
    "pgFile \<Rightarrow> XLogRecPtr \<Rightarrow> CompressAlg \<Rightarrow> int \<Rightarrow> nat \<Rightarrow> bool \<Rightarrow>
     send_rc \<times> pgFile \<times> byte list list \<times> BlockNumber \<times> errormsg option"

text \<open>The first \<open>n\<close> bytes of a buffer, as \<^verbatim>\<open>memcpy\<close> and \<^verbatim>\<open>fwrite\<close> read them.\<close>

definition buf_bytes :: "byte list \<Rightarrow> nat \<Rightarrow> byte list" where
  "buf_bytes buf n = map (\<lambda>i. buf ! i) [0..<n]"

section \<open>Retrieving one page\<close>

text \<open>
  The read loop of \<^verbatim>\<open>prepare_page\<close>, \<^verbatim>\<open>while (!page_is_valid && try_again--)\<close>, by
  recursion on \<^verbatim>\<open>try_again\<close>. \<open>rc\<close> is \<open>None\<close> while the variable still holds its initial 0.
  The loop ends by a \<^verbatim>\<open>return\<close> (\<open>Loop_return\<close>), with \<^verbatim>\<open>page_is_valid\<close> set (\<open>Loop_valid\<close>,
  with the page's lsn) or with the attempts used up (\<open>Loop_exhausted\<close>). The offset
  \<^verbatim>\<open>blknum * BLCKSZ\<close> is computed in 32 bits. \<^verbatim>\<open>Assert\<close> is the no-op of a production
  build.
\<close>

datatype read_outcome =
    Loop_return page_state page log
  | Loop_valid page XLogRecPtr log
  | Loop_exhausted page "page_class option" log

fun read_attempts ::
  "env \<Rightarrow> BlockNumber \<Rightarrow> BlockNumber \<Rightarrow> BackupMode \<Rightarrow> nat \<Rightarrow> nat \<Rightarrow> page \<Rightarrow>
   page_class option \<Rightarrow> log \<Rightarrow> msg + read_outcome" where
  "read_attempts E blknum absolute_blknum backup_mode checksum_version 0 pg rc lg =
     Inr (Loop_exhausted pg rc lg)"
| "read_attempts E blknum absolute_blknum backup_mode checksum_version (Suc try_again) pg rc lg =
     (case fio_pread E (unat (blknum * word_of_nat BLCKSZ)) (PAGE_READ_ATTEMPTS - Suc try_again) of
        Pread_error \<Rightarrow> Inl (Msg_block ''Cannot read block'' blknum)
      | Pread_bytes bs \<Rightarrow>
          if length bs = 0 then
            Inr (Loop_return PageIsTruncated pg (lg @ [(VERBOSE, Msg_block ''Cannot read block: block truncated'' blknum)]))
          else if length bs \<noteq> BLCKSZ then
            read_attempts E blknum absolute_blknum backup_mode checksum_version try_again
              (bs @ drop (length bs) pg) rc (lg @ [(WARNING, Msg_block ''Cannot read block: short read, try again'' blknum)])
          else
            (case validate_one_page (pg_checksum_page E) (Some bs) absolute_blknum 0 0
                    checksum_version of
               (PAGE_IS_ZEROED, page_lsn) \<Rightarrow>
                 Inr (Loop_return PageIsOk bs (lg @ [(VERBOSE, Msg_block ''empty page'' blknum)]))
             | (PAGE_IS_VALID, page_lsn) \<Rightarrow>
                 if backup_mode = BACKUP_MODE_DIFF_DELTA then Inr (Loop_valid bs page_lsn lg)
                 else Inr (Loop_return PageIsOk bs lg)
             | (PAGE_HEADER_IS_INVALID, page_lsn) \<Rightarrow>
                 read_attempts E blknum absolute_blknum backup_mode checksum_version try_again
                   bs (Some PAGE_HEADER_IS_INVALID)
                   (lg @ [(VERBOSE, Msg_block ''wrong page header, try again'' blknum)])
             | (PAGE_CHECKSUM_MISMATCH, page_lsn) \<Rightarrow>
                 read_attempts E blknum absolute_blknum backup_mode checksum_version try_again
                   bs (Some PAGE_CHECKSUM_MISMATCH)
                   (lg @ [(VERBOSE, Msg_block ''wrong checksum, try again'' blknum)])
             | (other, page_lsn) \<Rightarrow>
                 read_attempts E blknum absolute_blknum backup_mode checksum_version try_again
                   bs (Some other) lg))"

datatype stage = Return page_state page log | Continue page XLogRecPtr log

text \<open>\<^verbatim>\<open>file->segno * RELSEG_SIZE + blknum\<close>, a \<^verbatim>\<open>BlockNumber\<close>.\<close>

definition absolute_block :: "pgFile \<Rightarrow> BlockNumber \<Rightarrow> BlockNumber" where
  "absolute_block file blknum = word_of_int (segno file * RELSEG_SIZE) + blknum"

text \<open>
  The first block of \<^verbatim>\<open>prepare_page\<close>: the read loop, the report of a page still invalid
  after the last attempt, and the early return of \<^verbatim>\<open>checkdb\<close>.
\<close>

definition prepare_page_read ::
  "env \<Rightarrow> pgFile \<Rightarrow> BlockNumber \<Rightarrow> BlockNumber \<Rightarrow> BackupMode \<Rightarrow> page \<Rightarrow> bool \<Rightarrow> nat \<Rightarrow>
   msg + stage" where
  "prepare_page_read E file blknum absolute_blknum backup_mode pg strict checksum_version =
     (case read_attempts E blknum absolute_blknum backup_mode checksum_version
             PAGE_READ_ATTEMPTS pg None [] of
        Inl e \<Rightarrow> Inl e
      | Inr (Loop_return st p lg) \<Rightarrow> Inr (Return st p lg)
      | Inr (Loop_exhausted p rc lg) \<Rightarrow>
          (let errormsg =
                 (if rc = Some PAGE_HEADER_IS_INVALID then Some (get_header_errormsg p)
                  else if rc = Some PAGE_CHECKSUM_MISMATCH
                    then Some (get_checksum_errormsg (pg_checksum_page E) p
                                 (absolute_block file blknum))
                  else None)
           in if strict then Inl (Corruption_detected blknum errormsg)
              else Inr (Return PageIsCorrupted p
                          (lg @ [(WARNING, Corruption_detected blknum errormsg)])))
      | Inr (Loop_valid p page_lsn lg) \<Rightarrow>
          if \<not> strict then Inr (Return PageIsOk p lg) else Inr (Continue p page_lsn lg))"

text \<open>Storing \<^verbatim>\<open>pd_checksum\<close> into the page (little-endian, offset 8).\<close>

definition set_pd_checksum :: "page \<Rightarrow> 16 word \<Rightarrow> page" where
  "set_pd_checksum p c = p[8 := ucast c, 9 := ucast (drop_bit 8 c)]"

text \<open>The second block: the page of the change tracker replaces the one read.\<close>

definition prepare_page_ptrack ::
  "env \<Rightarrow> BlockNumber \<Rightarrow> BlockNumber \<Rightarrow> page \<Rightarrow> XLogRecPtr \<Rightarrow> log \<Rightarrow> nat \<Rightarrow> msg + stage" where
  "prepare_page_ptrack E blknum absolute_blknum pg page_lsn lg checksum_version =
     (case pg_ptrack_get_block E absolute_blknum of
        None \<Rightarrow> Inr (Return PageIsTruncated pg lg)
      | Some (ptrack_page, page_size) \<Rightarrow>
          if page_size \<noteq> BLCKSZ then Inl (Msg_block ''unexpected block size'' blknum)
          else
            (let pg' = buf_bytes ptrack_page BLCKSZ;
                 (rc, page_lsn') =
                    validate_one_page (pg_checksum_page E) (Some pg') absolute_blknum 0 page_lsn
                      checksum_version
             in if rc = PAGE_IS_ZEROED then Inr (Return PageIsOk pg' lg)
                else if rc = PAGE_HEADER_IS_INVALID
                  then Inl (Corruption_detected blknum (Some (get_header_errormsg pg')))
                else if checksum_version \<noteq> 0
                  then Inr (Continue (set_pd_checksum pg' (pg_checksum_page E pg' absolute_blknum))
                              page_lsn' lg)
                else Inr (Continue pg' page_lsn' lg)))"

text \<open>
  \<^verbatim>\<open>prepare_page\<close>: the state returned, the content of the caller's page buffer and the
  lines logged. \<open>pg\<close> is what the buffer held on entry.
\<close>

definition prepare_page ::
  "env \<Rightarrow> pgFile \<Rightarrow> XLogRecPtr \<Rightarrow> BlockNumber \<Rightarrow> BackupMode \<Rightarrow> page \<Rightarrow> bool \<Rightarrow> nat \<Rightarrow> int \<Rightarrow>
   msg + (page_state \<times> page \<times> log)" where
  "prepare_page E file prev_backup_start_lsn blknum backup_mode pg strict checksum_version
       ptrack_version_num =
     (let absolute_blknum = absolute_block file blknum in
      if interrupted E then Inl (Msg ''Interrupted during page reading'')
      else
        (case (if backup_mode \<noteq> BACKUP_MODE_DIFF_PTRACK \<or> ptrack_version_num \<ge> 20
               then prepare_page_read E file blknum absolute_blknum backup_mode pg strict
                      checksum_version
               else Inr (Continue pg 0 [])) of
           Inl e \<Rightarrow> Inl e
         | Inr (Return st pg1 lg1) \<Rightarrow> Inr (st, pg1, lg1)
         | Inr (Continue pg1 lsn1 lg1) \<Rightarrow>
             (case (if backup_mode = BACKUP_MODE_DIFF_PTRACK \<and>
                       (ptrack_version_num \<ge> 15 \<and> ptrack_version_num < 20)
                    then prepare_page_ptrack E blknum absolute_blknum pg1 lsn1 lg1
                           checksum_version
                    else Inr (Continue pg1 lsn1 lg1)) of
                Inl e \<Rightarrow> Inl e
              | Inr (Return st pg2 lg2) \<Rightarrow> Inr (st, pg2, lg2)
              | Inr (Continue pg2 page_lsn lg2) \<Rightarrow>
                  if backup_mode = BACKUP_MODE_DIFF_DELTA \<and> exists_in_prev file \<and>
                     page_lsn \<noteq> 0 \<and> page_lsn < prev_backup_start_lsn
                  then Inr (SkipCurrentPage, pg2, lg2 @ [(VERBOSE, Msg_block ''Skipping blknum'' blknum)])
                  else Inr (PageIsOk, pg2, lg2))))"

section \<open>Writing one frame\<close>

text \<open>
  \<^verbatim>\<open>do_compress\<close>: the \<^verbatim>\<open>int32\<close> returned, the destination buffer and the error message
  assigned, if any (\<^verbatim>\<open>Z_OK\<close> is 0).
\<close>

definition do_compress ::
  "env \<Rightarrow> byte list \<Rightarrow> CompressAlg \<Rightarrow> int \<Rightarrow> int \<times> byte list \<times> errormsg option" where
  "do_compress E src alg level =
     (case alg of
        NONE_COMPRESS \<Rightarrow> (- 1, [], None)
      | NOT_DEFINED_COMPRESS \<Rightarrow> (- 1, [], None)
      | ZLIB_COMPRESS \<Rightarrow>
          (let (ret, dst) = zlib_compress E src level
           in (ret, dst, if ret < 0 then Some (Codec_error ret) else None))
      | PGLZ_COMPRESS \<Rightarrow> (let (ret, dst) = pglz_compress E src in (ret, dst, None)))"

definition do_decompress ::
  "env \<Rightarrow> byte list \<Rightarrow> CompressAlg \<Rightarrow> int \<times> byte list \<times> errormsg option" where
  "do_decompress E src alg =
     (case alg of
        NONE_COMPRESS \<Rightarrow> (- 1, [], Some Invalid_compression_algorithm)
      | NOT_DEFINED_COMPRESS \<Rightarrow> (- 1, [], Some Invalid_compression_algorithm)
      | ZLIB_COMPRESS \<Rightarrow>
          (let (ret, dst) = zlib_decompress E src
           in (ret, dst, if ret < 0 then Some (Codec_error ret) else None))
      | PGLZ_COMPRESS \<Rightarrow> (let (ret, dst) = pglz_decompress E src in (ret, dst, None)))"

text \<open>A \<^verbatim>\<open>BackupPageHeader\<close> as the eight bytes \<^verbatim>\<open>memcpy\<close> copies (little-endian).\<close>

definition put_u32 :: "32 word \<Rightarrow> byte list" where
  "put_u32 w = [ucast w, ucast (drop_bit 8 w), ucast (drop_bit 16 w), ucast (drop_bit 24 w)]"

definition header_bytes :: "BlockNumber \<Rightarrow> int \<Rightarrow> byte list" where
  "header_bytes block compressed_size = put_u32 block @ put_u32 (word_of_int compressed_size)"

definition header_block :: "byte list \<Rightarrow> BlockNumber" where
  "header_block h = get_u32 h 0"

definition header_compressed_size :: "byte list \<Rightarrow> int" where
  "header_compressed_size h = sint (get_u32 h 4)"

text \<open>What the run does to its files, in order.\<close>

datatype io_event =
    Ev_fopen_in
  | Ev_fopen_out
  | Ev_chmod
  | Ev_fwrite "byte list"
  | Ev_fwrite_compressed "byte list" CompressAlg
  | Ev_fclose_out
  | Ev_fclose_in
  | Ev_unlink
  | Ev_fflush
  | Ev_fseek nat
  | Ev_ftruncate nat

text \<open>
  The \<^verbatim>\<open>write_buffer_size\<close> bytes of \<^verbatim>\<open>write_buffer\<close> that
  \<^verbatim>\<open>compress_and_backup_page\<close> assembles from the result of \<^verbatim>\<open>do_compress\<close> (the
  \<^verbatim>\<open>int32\<close> returned and the buffer \<^verbatim>\<open>compressed_page\<close>). The bytes between the end of the
  compressed payload and its aligned end are never assigned: they are what the stack held.
\<close>

definition frame_buffer :: "env \<Rightarrow> BlockNumber \<Rightarrow> page \<Rightarrow> int \<Rightarrow> byte list \<Rightarrow> byte list" where
  "frame_buffer E blknum pg compressed_size compressed_page =
     (if compressed_size > 0 \<and> compressed_size < int BLCKSZ then
        header_bytes blknum compressed_size @ buf_bytes compressed_page (nat compressed_size)
          @ map (uninit E) [8 + nat compressed_size ..< 8 + MAXALIGN compressed_size]
      else header_bytes blknum (int BLCKSZ) @ buf_bytes pg BLCKSZ)"

text \<open>
  \<^verbatim>\<open>compress_and_backup_page\<close>: the file record, the call of \<^verbatim>\<open>fio_fwrite\<close> with the
  buffer written, and the log. \<^verbatim>\<open>crc\<close> points to \<^verbatim>\<open>file->crc\<close>.
\<close>

definition compress_and_backup_page ::
  "env \<Rightarrow> pgFile \<Rightarrow> BlockNumber \<Rightarrow> page \<Rightarrow> CompressAlg \<Rightarrow> int \<Rightarrow>
   msg + (pgFile \<times> io_event list \<times> log)" where
  "compress_and_backup_page E file blknum pg calg clevel =
     (let (compressed_size, compressed_page, errormsg) = do_compress E (buf_bytes pg BLCKSZ) calg clevel;
          lg = (case errormsg of
                  Some m \<Rightarrow> if compressed_size < 0
                            then [(WARNING, Msg_block ''An error occured during compressing block'' blknum)]
                            else []
                | None \<Rightarrow> []);
          file1 = file\<lparr>compress_alg := calg\<rparr>;
          write_buffer = frame_buffer E blknum pg compressed_size compressed_page;
          file2 = file1\<lparr>crc := COMP_FILE_CRC32 E True (crc file1) write_buffer\<rparr>
      in if io_fails E Op_fwrite then Inl (Msg_block ''cannot write at block'' blknum)
         else Inr (file2\<lparr>write_size := write_size file2 + int (length write_buffer),
                          uncompressed_size := uncompressed_size file2 + int BLCKSZ\<rparr>,
                   [Ev_fwrite write_buffer], lg))"

text \<open>The buffers written to the output, in order: each is one frame.\<close>

definition written :: "io_event list \<Rightarrow> byte list list" where
  "written tr = concat (map (\<lambda>ev. case ev of Ev_fwrite bs \<Rightarrow> [bs] | _ \<Rightarrow> []) tr)"

section \<open>The page map\<close>

text \<open>
  Modelled from the spec: \<^verbatim>\<open>datapagemap_iterate\<close> and \<^verbatim>\<open>datapagemap_next\<close> are defined in
  \<^verbatim>\<open>datapagemap.c\<close>, which is not among the sources. The specification describes the page
  map as a bitmap indexed by block number with a lazy iterator that produces block numbers
  in ascending order: the iterator holds the next index to look at, and a call returns the
  first index from there on whose bit is set, or nothing when the bitmap (or the range of
  block numbers) is used up.
\<close>

function datapagemap_next :: "byte list \<Rightarrow> int \<Rightarrow> nat \<Rightarrow> (BlockNumber \<times> nat) option" where
  "datapagemap_next bitmap bitmapsize nextblkno =
     (if int (nextblkno div 8) \<ge> bitmapsize \<or> nextblkno \<ge> 2 ^ 32 then None
      else if bit (bitmap ! (nextblkno div 8)) (nextblkno mod 8)
        then Some (word_of_nat nextblkno, nextblkno + 1)
      else datapagemap_next bitmap bitmapsize (nextblkno + 1))"
  by pat_completeness auto
termination
  by (relation "measure (\<lambda>(bitmap, bitmapsize, nextblkno). 2 ^ 32 - nextblkno)") auto

declare datapagemap_next.simps [simp del]

lemma datapagemap_next_Some:
  "datapagemap_next bitmap bitmapsize i = Some (b, i') \<Longrightarrow> i \<le> unat b \<and> i' = unat b + 1"
proof (induction bitmap bitmapsize i rule: datapagemap_next.induct)
  case (1 bitmap bitmapsize nextblkno)
  show ?case
  proof (cases "int (nextblkno div 8) \<ge> bitmapsize \<or> nextblkno \<ge> 2 ^ 32")
    case True
    with "1.prems" show ?thesis by (simp add: datapagemap_next.simps)
  next
    case inside: False
    show ?thesis
    proof (cases "bit (bitmap ! (nextblkno div 8)) (nextblkno mod 8)")
      case True
      with inside "1.prems" have "b = word_of_nat nextblkno" "i' = nextblkno + 1"
        by (simp_all add: datapagemap_next.simps)
      moreover from inside have "unat (word_of_nat nextblkno :: 32 word) = nextblkno"
        by (simp add: unat_of_nat)
      ultimately show ?thesis by simp
    next
      case False
      with inside "1.prems"
      have "datapagemap_next bitmap bitmapsize (nextblkno + 1) = Some (b, i')"
        by (simp add: datapagemap_next.simps)
      from "1.IH" [OF inside False this] show ?thesis by simp
    qed
  qed
qed

lemma unat_lt32: "unat (b :: 32 word) < 4294967296"
  using unsigned_less [of b, where 'a = nat] by simp

lemma datapagemap_next_measure:
  "datapagemap_next bitmap bitmapsize i = Some (b, i') \<Longrightarrow>
     (4294967297::nat) - i' < 4294967297 - i"
proof -
  assume "datapagemap_next bitmap bitmapsize i = Some (b, i')"
  then have "i \<le> unat b" "i' = unat b + 1"
    using datapagemap_next_Some [of bitmap bitmapsize i b i'] by simp_all
  moreover have "unat b < 4294967296" by (rule unat_lt32)
  ultimately show ?thesis by arith
qed

lemma word_inc_measure:
  "(blknum :: 32 word) < nblocks \<Longrightarrow> unat nblocks - unat (blknum + 1) < unat nblocks - unat blknum"
  by unat_arith

section \<open>The backup of one data file\<close>

text \<open>
  The loop \<^verbatim>\<open>while (blknum < nblocks)\<close> of the local mode. \<open>iter\<close> is the iterator of the
  page map, \<open>curr_page\<close> what the page buffer holds, \<open>tr\<close> the I/O done so far. The
  counter \<^verbatim>\<open>n_blocks_skipped\<close> is never read and is left out; \<^verbatim>\<open>Assert\<close> is the no-op of a
  production build.
\<close>

function backup_loop ::
  "env \<Rightarrow> XLogRecPtr \<Rightarrow> BackupMode \<Rightarrow> CompressAlg \<Rightarrow> int \<Rightarrow> nat \<Rightarrow> int \<Rightarrow> BlockNumber \<Rightarrow> bool \<Rightarrow>
   pgFile \<Rightarrow> BlockNumber \<Rightarrow> nat \<Rightarrow> page \<Rightarrow> io_event list \<Rightarrow> log \<Rightarrow>
   msg + (pgFile \<times> io_event list \<times> log)" where
  "backup_loop E prev_backup_start_lsn backup_mode calg clevel checksum_version
       ptrack_version_num nblocks use_pagemap file blknum iter curr_page tr lg =
     (if blknum < nblocks then
        (case prepare_page E file prev_backup_start_lsn blknum backup_mode curr_page True
                checksum_version ptrack_version_num of
           Inl e \<Rightarrow> Inl e
         | Inr (page_state, pg, lg1) \<Rightarrow>
             if page_state = PageIsTruncated then Inr (file, tr, lg @ lg1)
             else
               (case (if page_state = SkipCurrentPage then Inr (file, [], [])
                      else if page_state = PageIsOk
                        then compress_and_backup_page E file blknum pg calg clevel
                      else Inr (file, [], [])) of
                  Inl e \<Rightarrow> Inl e
                | Inr (file1, evs, lg2) \<Rightarrow>
                    (let file2 = file1\<lparr>read_size := read_size file1 + int BLCKSZ\<rparr> in
                     if use_pagemap then
                       (case datapagemap_next (the (pagemap_bitmap file2)) (pagemap_bitmapsize file2)
                               iter of
                          None \<Rightarrow> Inr (file2, tr @ evs, lg @ lg1 @ lg2)
                        | Some (blknum', iter') \<Rightarrow>
                            backup_loop E prev_backup_start_lsn backup_mode calg clevel
                              checksum_version ptrack_version_num nblocks use_pagemap file2
                              blknum' iter' pg (tr @ evs) (lg @ lg1 @ lg2))
                     else
                       backup_loop E prev_backup_start_lsn backup_mode calg clevel
                         checksum_version ptrack_version_num nblocks use_pagemap file2
                         (blknum + 1) iter pg (tr @ evs) (lg @ lg1 @ lg2))))
      else Inr (file, tr, lg))"
  by pat_completeness auto
termination
  apply (relation "measure (\<lambda>(E, prev, mode, calg, clevel, cv, pv, nblocks, use_pagemap, file,
                            blknum, iter, rest).
                    if use_pagemap then 2 ^ 32 + 1 - iter else unat nblocks - unat blknum)")
  subgoal by simp
  subgoal by (auto dest: datapagemap_next_measure)
  subgoal by (simp add: word_inc_measure)
  done

declare backup_loop.simps [simp del]

text \<open>
  \<^verbatim>\<open>backup_data_file\<close> once both files are open, in three parts: the choice of
  \<^verbatim>\<open>use_pagemap\<close>; the pages, sent by the remote transport or copied by the local loop
  (which starts at block 0, or at the first block of the page map); and the end of the
  function, from the refresh of \<^verbatim>\<open>n_blocks\<close> on. \<open>tr\<close> lists the calls made so far.
\<close>

definition use_pagemap :: "pgFile \<Rightarrow> bool" where
  "use_pagemap file =
     (if pagemap_bitmapsize file = PageBitmapIsEmpty \<or> pagemap_isabsent file \<or>
         \<not> exists_in_prev file \<or> pagemap_bitmap file = None
      then False else True)"

definition backup_data_file_pages ::
  "env \<Rightarrow> pgFile \<Rightarrow> XLogRecPtr \<Rightarrow> BackupMode \<Rightarrow> CompressAlg \<Rightarrow> int \<Rightarrow> nat \<Rightarrow> int \<Rightarrow>
   BlockNumber \<Rightarrow> io_event list \<Rightarrow> log \<Rightarrow> msg + (pgFile \<times> io_event list \<times> log)" where
  "backup_data_file_pages E file prev_backup_start_lsn backup_mode calg clevel checksum_version
       ptrack_version_num nblocks tr lg =
     (if fio_is_remote_file E then
        (case fio_send_pages E file
                (if backup_mode = BACKUP_MODE_DIFF_DELTA \<and> exists_in_prev file
                 then prev_backup_start_lsn else 0)
                calg clevel checksum_version (use_pagemap file) of
           (REMOTE_ERROR, file', chunks, err_blknum, errmsg) \<Rightarrow>
             Inl (Msg_block ''Cannot read block'' err_blknum)
         | (PAGE_CORRUPTION, file', chunks, err_blknum, errmsg) \<Rightarrow>
             Inl (Corruption_detected err_blknum errmsg)
         | (WRITE_FAILED, file', chunks, err_blknum, errmsg) \<Rightarrow>
             Inl (Msg_block ''Cannot write block'' err_blknum)
         | (Blocks_read rc, file', chunks, err_blknum, errmsg) \<Rightarrow>
             Inr (file'\<lparr>read_size := rc * int BLCKSZ\<rparr>, tr @ map Ev_fwrite chunks, lg))
      else
        (let (blknum, iter) =
               (if use_pagemap file then
                  (case datapagemap_next (the (pagemap_bitmap file)) (pagemap_bitmapsize file) 0 of
                     None \<Rightarrow> (0, 0)
                   | Some (b, i) \<Rightarrow> (b, i))
                else (0, 0))
         in backup_loop E prev_backup_start_lsn backup_mode calg clevel checksum_version
              ptrack_version_num nblocks (use_pagemap file) file blknum iter
              (map (uninit E) [0..<BLCKSZ]) tr lg))"

definition backup_data_file_finish ::
  "env \<Rightarrow> BackupMode \<Rightarrow> pgFile \<Rightarrow> io_event list \<Rightarrow> log \<Rightarrow>
   msg + (pgFile \<times> io_event list \<times> log)" where
  "backup_data_file_finish E backup_mode file3 tr3 lg3 =
     (let file4 =
            (if backup_mode = BACKUP_MODE_FULL \<or> backup_mode = BACKUP_MODE_DIFF_DELTA
             then file3\<lparr>n_blocks := sint (word_of_int (read_size file3 div int BLCKSZ) :: 32 word)\<rparr>
             else file3)
      in if io_fails E Op_fclose_out then Inl (Msg ''Cannot close the backup file'')
         else
           (let file5 = file4\<lparr>crc := FIN_FILE_CRC32 E True (crc file4)\<rparr>;
                file6 =
                  (if backup_mode \<noteq> BACKUP_MODE_FULL \<and> exists_in_prev file5 \<and>
                      write_size file5 = 0 \<and> n_blocks file5 > 0
                   then file5\<lparr>write_size := BYTES_INVALID\<rparr> else file5);
                tr6 = tr3 @ [Ev_fclose_out, Ev_fclose_in]
            in if write_size file6 \<le> 0 then
                 (if io_fails E Op_unlink then Inl (Msg ''Cannot remove file'')
                  else Inr (file6, tr6 @ [Ev_unlink], lg3))
               else Inr (file6, tr6, lg3)))"

definition backup_data_file_copy ::
  "env \<Rightarrow> pgFile \<Rightarrow> XLogRecPtr \<Rightarrow> BackupMode \<Rightarrow> CompressAlg \<Rightarrow> int \<Rightarrow> nat \<Rightarrow> int \<Rightarrow>
   BlockNumber \<Rightarrow> io_event list \<Rightarrow> log \<Rightarrow> msg + (pgFile \<times> io_event list \<times> log)" where
  "backup_data_file_copy E file prev_backup_start_lsn backup_mode calg clevel checksum_version
       ptrack_version_num nblocks tr lg =
     (case backup_data_file_pages E file prev_backup_start_lsn backup_mode calg clevel
             checksum_version ptrack_version_num nblocks tr lg of
        Inl e \<Rightarrow> Inl e
      | Inr (file3, tr3, lg3) \<Rightarrow> backup_data_file_finish E backup_mode file3 tr3 lg3)"

text \<open>
  \<^verbatim>\<open>backup_data_file\<close>: the file record as the call leaves it, the calls it made on the
  source and the output file, and its log. \<^verbatim>\<open>nblocks\<close> is a \<^verbatim>\<open>BlockNumber\<close>, so the
  quotient is cut to 32 bits; \<^verbatim>\<open>n_blocks\<close> is an \<^verbatim>\<open>int\<close>.
\<close>

definition backup_data_file ::
  "env \<Rightarrow> pgFile \<Rightarrow> XLogRecPtr \<Rightarrow> BackupMode \<Rightarrow> CompressAlg \<Rightarrow> int \<Rightarrow> nat \<Rightarrow> int \<Rightarrow> bool \<Rightarrow>
   msg + (pgFile \<times> io_event list \<times> log)" where
  "backup_data_file E file prev_backup_start_lsn backup_mode calg clevel checksum_version
       ptrack_version_num missing_ok =
     (let lg0 = (if file_size file mod BLCKSZ \<noteq> 0 then [(WARNING, Msg ''invalid file size'')]
                 else []);
          nblocks = (word_of_nat (file_size file div BLCKSZ) :: BlockNumber);
          file1 = file\<lparr>n_blocks := sint nblocks\<rparr>
      in
      if (backup_mode = BACKUP_MODE_DIFF_PAGE \<or> backup_mode = BACKUP_MODE_DIFF_PTRACK) \<and>
         pagemap_bitmapsize file1 = PageBitmapIsEmpty \<and>
         exists_in_prev file1 \<and> \<not> pagemap_isabsent file1
      then Inr (file1\<lparr>write_size := BYTES_INVALID\<rparr>, [], lg0)
      else
        (let file2 = file1\<lparr>read_size := 0, write_size := 0, uncompressed_size := 0,
                            crc := INIT_FILE_CRC32 E True\<rparr>
         in case fopen_in E of
              Fopen_ENOENT \<Rightarrow>
                if missing_ok then
                  Inr (file2\<lparr>crc := FIN_FILE_CRC32 E True (crc file2), write_size := FILE_NOT_FOUND\<rparr>,
                       [Ev_fopen_in], lg0 @ [(LOG, Msg ''File is not found'')])
                else Inl (Msg ''File is not found'')
            | Fopen_failed \<Rightarrow> Inl (Msg ''Cannot open file'')
            | Fopen_ok \<Rightarrow>
                if io_fails E Op_fopen_out then Inl (Msg ''Cannot open backup file'')
                else if io_fails E Op_chmod then Inl (Msg ''Cannot change mode'')
                else backup_data_file_copy E file2 prev_backup_start_lsn backup_mode calg clevel
                       checksum_version ptrack_version_num nblocks
                       [Ev_fopen_in, Ev_fopen_out, Ev_chmod] lg0))"

section \<open>The restore of one data file\<close>

text \<open>
  Modelled from the spec: \<^verbatim>\<open>fio_fwrite_compressed\<close> is defined in \<^verbatim>\<open>utils/file.c\<close>, which
  is not among the sources. The specification (section 4.6): where the writer has a
  compressed write-through path the compressed payload is forwarded as it is, to be
  decompressed by the sink; otherwise the page is decompressed, into exactly \<^verbatim>\<open>BLCKSZ\<close>
  bytes or else the run fails, and the raw page is written.
\<close>

definition fio_fwrite_compressed ::
  "env \<Rightarrow> byte list \<Rightarrow> CompressAlg \<Rightarrow> msg + io_event list" where
  "fio_fwrite_compressed E buf alg =
     (if fio_is_remote_file E then Inr [Ev_fwrite_compressed buf alg]
      else
        (case do_decompress E buf alg of
           (uncompressed_len, dst, errormsg) \<Rightarrow>
             if uncompressed_len \<noteq> int BLCKSZ then Inl (Msg ''Page uncompressed to != BLCKSZ'')
             else Inr [Ev_fwrite (buf_bytes dst BLCKSZ)]))"

definition PageIsTruncated_marker :: int where
  "PageIsTruncated_marker = - 1"

text \<open>
  The loop \<^verbatim>\<open>for (;;)\<close> of \<^verbatim>\<open>restore_data_file_internal\<close>. \<open>inp\<close> is what is left of the
  backup stream, \<open>tr\<close> the calls made on the destination so far. The result is
  \<^verbatim>\<open>write_len\<close>, the calls and the log. \<^verbatim>\<open>fread\<close> returns fewer bytes than asked only
  at the end of the stream. The products \<^verbatim>\<open>blknum * BLCKSZ\<close> are computed in 32 bits. A
  read of more than \<^verbatim>\<open>BLCKSZ\<close> bytes into the page buffer, and a negative size handed on as
  a \<^verbatim>\<open>size_t\<close>, leave the buffer: the model ends such a run with an error of its own.
\<close>

function restore_loop ::
  "env \<Rightarrow> pgFile \<Rightarrow> nat \<Rightarrow> int \<Rightarrow> byte list \<Rightarrow> BlockNumber \<Rightarrow> nat \<Rightarrow> nat \<Rightarrow> io_event list \<Rightarrow>
   log \<Rightarrow> msg + (nat \<times> io_event list \<times> log)" where
  "restore_loop E file backup_version nblocks inp blknum cur_pos write_len tr lg =
     (if interrupted E then Inl (Msg ''Interrupted during data file restore'')
      else if io_fails E Op_ferror_in then Inl (Msg_block ''Cannot read header of block'' blknum)
      else if length (take 8 inp) \<noteq> 8 then
        (if length (take 8 inp) = 0 then Inr (write_len, tr, lg)
         else Inl (Msg_block ''Odd size page found at block'' blknum))
      else if header_block (take 8 inp) = 0 \<and> header_compressed_size (take 8 inp) = 0 then
        restore_loop E file backup_version nblocks (drop 8 inp) blknum cur_pos write_len tr
          (lg @ [(WARNING, Msg ''Skip empty block'')])
      else if header_block (take 8 inp) < blknum then
        Inl (Msg_block ''Backup is broken at block'' blknum)
      else if header_compressed_size (take 8 inp) = PageIsTruncated_marker then
        (if io_fails E Op_fflush then Inl (Msg ''Cannot flush file'')
         else if io_fails E Op_fseek then Inl (Msg ''Cannot seek to the start of file'')
         else if io_fails E Op_ftruncate then Inl (Msg ''Cannot truncate file'')
         else Inr (write_len,
                   tr @ [Ev_fflush, Ev_fseek 0,
                         Ev_ftruncate (unat (header_block (take 8 inp) * word_of_nat BLCKSZ))],
                   lg @ [(VERBOSE, Msg_block ''Truncate file to block'' (header_block (take 8 inp)))]))
      else if nblocks > 0 \<and> uint (header_block (take 8 inp)) \<ge> nblocks then
        Inr (write_len, tr, lg)
      else if header_compressed_size (take 8 inp) > int BLCKSZ then
        Inl (Msg_block ''Size of a blknum exceed BLCKSZ'' (header_block (take 8 inp)))
      else if length (take (MAXALIGN (header_compressed_size (take 8 inp))) (drop 8 inp)) > BLCKSZ
        then Inl (Msg ''read past the page buffer'')
      else if length (take (MAXALIGN (header_compressed_size (take 8 inp))) (drop 8 inp))
                \<noteq> MAXALIGN (header_compressed_size (take 8 inp))
        then Inl (Msg_block ''Cannot read block'' (header_block (take 8 inp)))
      else
        (let blknum1 = header_block (take 8 inp);
             compressed_size = header_compressed_size (take 8 inp);
             data = take (MAXALIGN compressed_size) (drop 8 inp);
             is_compressed =
               (compressed_size \<noteq> int BLCKSZ \<or>
                page_may_be_compressed data (compress_alg file) backup_version);
             write_pos = unat (blknum1 * word_of_nat BLCKSZ)
         in if cur_pos \<noteq> write_pos \<and> io_fails E Op_fseek
            then Inl (Msg_block ''Cannot seek block'' blknum1)
            else
              (case (if is_compressed then
                       (if compressed_size < 0 then Inl (Msg ''read past the page buffer'')
                        else fio_fwrite_compressed E (buf_bytes data (nat compressed_size))
                               (compress_alg file))
                     else if io_fails E Op_fwrite then Inl (Msg_block ''Cannot write block'' blknum1)
                     else Inr [Ev_fwrite (buf_bytes data BLCKSZ)]) of
                 Inl e \<Rightarrow> Inl e
               | Inr evs \<Rightarrow>
                   restore_loop E file backup_version nblocks
                     (drop (MAXALIGN (header_compressed_size (take 8 inp))) (drop 8 inp))
                     blknum1 (write_pos + BLCKSZ) (write_len + BLCKSZ)
                     ((if cur_pos \<noteq> write_pos then tr @ [Ev_fseek write_pos] else tr) @ evs)
                     lg)))"
  by pat_completeness auto
termination
  by (relation "measure (\<lambda>(E, file, backup_version, nblocks, inp, rest). length inp)") auto

declare restore_loop.simps [simp del]

definition restore_data_file_internal ::
  "env \<Rightarrow> pgFile \<Rightarrow> nat \<Rightarrow> int \<Rightarrow> byte list \<Rightarrow> msg + (nat \<times> io_event list \<times> log)" where
  "restore_data_file_internal E file backup_version nblocks inp =
     (if io_fails E Op_fseek then Inl (Msg_block ''Cannot seek block'' 0)
      else
        (case restore_loop E file backup_version nblocks inp 0 0 0 [Ev_fseek 0] [] of
           Inl e \<Rightarrow> Inl e
         | Inr (write_len, tr, lg) \<Rightarrow> Inr (write_len, tr, lg @ [(VERBOSE, Msg ''Copied file'')])))"

text \<open>
  What the calls on the destination leave in it: the content and the position of a file
  that held \<open>content\<close> and stood at \<open>pos\<close>. A write past the end fills the gap with zero
  bytes, as the file system does; \<^verbatim>\<open>ftruncate\<close> cuts the file or extends it with zero
  bytes.
\<close>

fun apply_event :: "io_event \<Rightarrow> byte list \<times> nat \<Rightarrow> byte list \<times> nat" where
  "apply_event (Ev_fseek n) (content, pos) = (content, n)"
| "apply_event (Ev_fwrite bs) (content, pos) =
     (take pos content @ replicate (pos - length content) 0 @ bs @ drop (pos + length bs) content,
      pos + length bs)"
| "apply_event (Ev_ftruncate n) (content, pos) =
     (take n content @ replicate (n - length content) 0, pos)"
| "apply_event ev (content, pos) = (content, pos)"

definition apply_events :: "io_event list \<Rightarrow> byte list \<times> nat \<Rightarrow> byte list \<times> nat" where
  "apply_events evs st = fold apply_event evs st"

section \<open>The validation of a backed up data file\<close>

definition use_crc32c :: "nat \<Rightarrow> bool" where
  "use_crc32c backup_version \<longleftrightarrow> backup_version \<le> 20021 \<or> backup_version \<ge> 20025"

text \<open>
  The loop \<^verbatim>\<open>while (true)\<close> of \<^verbatim>\<open>check_file_pages\<close>. It ends at the end of the stream
  (\<open>Pages_done\<close>, with \<^verbatim>\<open>is_valid\<close> and the checksum so far) or by \<^verbatim>\<open>return false\<close>
  (\<open>Pages_false\<close>). \<^verbatim>\<open>blknum\<close> is declared in the body and is 0 at each comparison;
  \<^verbatim>\<open>Assert\<close> is the no-op of a production build.
\<close>

datatype pages_outcome = Pages_done bool pg_crc32 log | Pages_false log

text \<open>What the \<^verbatim>\<open>switch (rc)\<close> at the end of the body logs.\<close>

definition page_verdict_log :: "page_class \<Rightarrow> BlockNumber \<Rightarrow> log" where
  "page_verdict_log rc blknum =
     (case rc of
        PAGE_IS_NOT_FOUND \<Rightarrow> [(LOG, Msg_block ''page is NULL'' blknum)]
      | PAGE_IS_ZEROED \<Rightarrow> [(LOG, Msg_block ''empty zeroed page'' blknum)]
      | PAGE_HEADER_IS_INVALID \<Rightarrow> [(WARNING, Msg_block ''Page header is looking insane'' blknum)]
      | PAGE_CHECKSUM_MISMATCH \<Rightarrow> [(WARNING, Msg_block ''have wrong checksum'' blknum)]
      | PAGE_LSN_FROM_FUTURE \<Rightarrow> [(WARNING, Msg_block ''Page is from future'' blknum)]
      | PAGE_IS_VALID \<Rightarrow> [])"

function check_pages_loop ::
  "env \<Rightarrow> pgFile \<Rightarrow> XLogRecPtr \<Rightarrow> nat \<Rightarrow> nat \<Rightarrow> bool \<Rightarrow> byte list \<Rightarrow> pg_crc32 \<Rightarrow> bool \<Rightarrow> log \<Rightarrow>
   msg + pages_outcome" where
  "check_pages_loop E file stop_lsn checksum_version backup_version crc32c inp crc0 is_valid lg =
     (if interrupted E then Inl (Msg ''Interrupted during data file validation'')
      else if io_fails E Op_ferror_in then Inl (Msg_block ''Cannot read header of block'' 0)
      else if length (take 8 inp) \<noteq> 8 then
        (if length (take 8 inp) = 0 then Inr (Pages_done is_valid crc0 lg)
         else Inr (Pages_false (lg @ [(WARNING, Msg_block ''Odd size page found at block'' 0)])))
      else
        (let header = take 8 inp;
             crc1 = COMP_FILE_CRC32 E crc32c crc0 header;
             blknum = header_block header;
             compressed_size = header_compressed_size header;
             n = MAXALIGN compressed_size;
             data = take n (drop 8 inp)
         in
         if header_block header = 0 \<and> compressed_size = 0 then
           check_pages_loop E file stop_lsn checksum_version backup_version crc32c (drop 8 inp)
             crc1 is_valid (lg @ [(VERBOSE, Msg ''Skip empty block'')])
         else if header_block header < 0 then
           Inr (Pages_false (lg @ [(WARNING, Msg_block ''Backup is broken at block'' 0)]))
         else if compressed_size = PageIsTruncated_marker then
           check_pages_loop E file stop_lsn checksum_version backup_version crc32c (drop 8 inp)
             crc1 is_valid (lg @ [(LOG, Msg_block ''Block is truncated'' blknum)])
         else if length data > BLCKSZ then Inl (Msg ''read past the page buffer'')
         else if length data \<noteq> n then
           Inr (Pages_false (lg @ [(WARNING, Msg_block ''Cannot read block'' blknum)]))
         else
           (let crc2 = COMP_FILE_CRC32 E crc32c crc1 data;
                absolute_blknum = absolute_block file blknum
            in
            if compressed_size \<noteq> int BLCKSZ \<or>
               page_may_be_compressed data (compress_alg file) backup_version
            then
              (if compressed_size < 0 then Inl (Msg ''read past the page buffer'')
               else
                 (case do_decompress E (buf_bytes data (nat compressed_size)) (compress_alg file) of
                    (uncompressed_len, dst, errormsg) \<Rightarrow>
                      (let lg1 =
                             (if uncompressed_len < 0 \<and> errormsg \<noteq> None
                              then lg @ [(WARNING, Msg_block ''An error occured during decompressing block'' blknum)]
                              else lg)
                       in
                       if uncompressed_len \<noteq> int BLCKSZ then
                         (if compressed_size = int BLCKSZ then
                            check_pages_loop E file stop_lsn checksum_version backup_version
                              crc32c (drop n (drop 8 inp)) crc2 False lg1
                          else Inr (Pages_false
                                      (lg1 @ [(WARNING, Msg ''Page uncompressed to != BLCKSZ'')])))
                       else
                         (case validate_one_page (pg_checksum_page E) (Some (buf_bytes dst BLCKSZ))
                                 absolute_blknum stop_lsn 0 checksum_version of
                            (rc, page_lsn) \<Rightarrow>
                              check_pages_loop E file stop_lsn checksum_version backup_version
                                crc32c (drop n (drop 8 inp)) crc2
                                (if rc = PAGE_HEADER_IS_INVALID \<or> rc = PAGE_CHECKSUM_MISMATCH
                                 then False else is_valid)
                                (lg1 @ page_verdict_log rc blknum)))))
            else
              (case validate_one_page (pg_checksum_page E) (Some (buf_bytes data BLCKSZ))
                      absolute_blknum stop_lsn 0 checksum_version of
                 (rc, page_lsn) \<Rightarrow>
                   check_pages_loop E file stop_lsn checksum_version backup_version crc32c
                     (drop n (drop 8 inp)) crc2
                     (if rc = PAGE_HEADER_IS_INVALID \<or> rc = PAGE_CHECKSUM_MISMATCH
                      then False else is_valid)
                     (lg @ page_verdict_log rc blknum)))))"
  by pat_completeness auto
termination
  by (relation "measure (\<lambda>(E, file, stop_lsn, cv, bv, c, inp, rest). length inp)") auto

declare check_pages_loop.simps [simp del]

text \<open>
  \<^verbatim>\<open>check_file_pages\<close>: the value returned and the log. \<open>inp\<close> is the content of the file
  at \<^verbatim>\<open>fullpath\<close>.
\<close>

definition check_file_pages ::
  "env \<Rightarrow> pgFile \<Rightarrow> byte list \<Rightarrow> XLogRecPtr \<Rightarrow> nat \<Rightarrow> nat \<Rightarrow> msg + (bool \<times> log)" where
  "check_file_pages E file inp stop_lsn checksum_version backup_version =
     (let crc32c = use_crc32c backup_version;
          lg0 = [(VERBOSE, Msg ''Validate relation blocks for file'')]
      in case fopen_in E of
           Fopen_ENOENT \<Rightarrow> Inr (False, lg0 @ [(WARNING, Msg ''File is not found'')])
         | Fopen_failed \<Rightarrow> Inl (Msg ''Cannot open file'')
         | Fopen_ok \<Rightarrow>
             (case check_pages_loop E file stop_lsn checksum_version backup_version crc32c inp
                     (INIT_FILE_CRC32 E crc32c) True lg0 of
                Inl e \<Rightarrow> Inl e
              | Inr (Pages_false lg) \<Rightarrow> Inr (False, lg)
              | Inr (Pages_done is_valid crc1 lg) \<Rightarrow>
                  (let crc2 = FIN_FILE_CRC32 E crc32c crc1 in
                   if crc2 \<noteq> crc file
                   then Inr (False, lg @ [(WARNING, Msg ''Invalid CRC of backup file'')])
                   else Inr (is_valid, lg))))"

section \<open>Concrete pages\<close>

text \<open>
  A page with a sound header (\<^verbatim>\<open>pd_lower\<close> 24, \<^verbatim>\<open>pd_upper\<close> and \<^verbatim>\<open>pd_special\<close> 8192, page
  size 8192 with layout version 4, no flags, checksum 0) whose lsn is \<open>l\<close>, and nothing
  but zero bytes after the header.
\<close>

definition page_with_lsn :: "byte \<Rightarrow> page" where
  "page_with_lsn l =
     [0, 0, 0, 0, l, 0, 0, 0,  0, 0,  0, 0,  24, 0,  0, 32,  0, 32,  4, 32,  0, 0, 0, 0]
       @ replicate 8168 0"

text \<open>A page that is not zeroed and whose header is broken (its page size is 0).\<close>

definition torn_page :: page where
  "torn_page = 120 # replicate 8191 0"


section \<open>Reads of one block\<close>

text \<open>
  The class \<^const>\<open>prepare_page\<close> gives to a page read for a block, and what an attempt to
  read the block may do: return a whole page that is torn (header invalid or checksum
  mismatch), fail in a way that is tried again (a short read or a torn page), or return a
  whole page that is valid.
\<close>

definition class_of_read :: "env \<Rightarrow> pgFile \<Rightarrow> BlockNumber \<Rightarrow> nat \<Rightarrow> page \<Rightarrow> page_class" where
  "class_of_read E file blknum checksum_version p =
     fst (validate_one_page (pg_checksum_page E) (Some p)
            (absolute_block file blknum) 0 0 checksum_version)"

definition torn_read :: "env \<Rightarrow> pgFile \<Rightarrow> BlockNumber \<Rightarrow> nat \<Rightarrow> nat \<Rightarrow> bool" where
  "torn_read E file blknum checksum_version i =
     (case fio_pread E (unat (blknum * word_of_nat BLCKSZ)) i of
        Pread_error \<Rightarrow> False
      | Pread_bytes p \<Rightarrow>
          length p = BLCKSZ \<and>
          (class_of_read E file blknum checksum_version p = PAGE_HEADER_IS_INVALID \<or>
           class_of_read E file blknum checksum_version p = PAGE_CHECKSUM_MISMATCH))"

definition failed_read :: "env \<Rightarrow> pgFile \<Rightarrow> BlockNumber \<Rightarrow> nat \<Rightarrow> nat \<Rightarrow> bool" where
  "failed_read E file blknum checksum_version i =
     (case fio_pread E (unat (blknum * word_of_nat BLCKSZ)) i of
        Pread_error \<Rightarrow> False
      | Pread_bytes p \<Rightarrow>
          (0 < length p \<and> length p \<noteq> BLCKSZ) \<or>
          torn_read E file blknum checksum_version i)"

definition valid_read :: "env \<Rightarrow> pgFile \<Rightarrow> BlockNumber \<Rightarrow> nat \<Rightarrow> nat \<Rightarrow> page \<Rightarrow> bool" where
  "valid_read E file blknum checksum_version i p \<longleftrightarrow>
     fio_pread E (unat (blknum * word_of_nat BLCKSZ)) i = Pread_bytes p \<and>
     length p = BLCKSZ \<and>
     class_of_read E file blknum checksum_version p = PAGE_IS_VALID"

definition verbose_only :: "log \<Rightarrow> bool" where
  "verbose_only lg \<longleftrightarrow> list_all (\<lambda>e. fst e = VERBOSE) lg"

section \<open>A quiet environment and a plain file\<close>

text \<open>
  An environment in which nothing fails and nothing is interrupted, with checksum 0 for
  every page and codecs that always fail, and a file record of one block; concrete runs
  override the fields they need.
\<close>

definition quiet_env :: env where
  "quiet_env =
     \<lparr>interrupted = False,
      pg_checksum_page = (\<lambda>p b. 0),
      fio_pread = (\<lambda>off i. Pread_bytes []),
      pg_ptrack_get_block = (\<lambda>b. None),
      pglz_compress = (\<lambda>src. (- 1, [])),
      zlib_compress = (\<lambda>src level. (- 1, [])),
      pglz_decompress = (\<lambda>src. (- 1, [])),
      zlib_decompress = (\<lambda>src. (- 1, [])),
      INIT_FILE_CRC32 = (\<lambda>c. 0),
      COMP_FILE_CRC32 = (\<lambda>c crc0 bs. crc0 + word_of_nat (length bs)),
      FIN_FILE_CRC32 = (\<lambda>c crc0. crc0),
      uninit = (\<lambda>i. 0),
      fopen_in = Fopen_ok,
      fio_is_remote_file = False,
      io_fails = (\<lambda>op. False),
      fio_send_pages = (\<lambda>f l a c v u. (REMOTE_ERROR, f, [], 0, None))\<rparr>"

definition plain_file :: pgFile where
  "plain_file =
     \<lparr>file_size = 8192, n_blocks = 0, read_size = 0, write_size = 0, uncompressed_size = 0,
      crc = 0, exists_in_prev = True, pagemap_bitmap = None, pagemap_bitmapsize = 0,
      pagemap_isabsent = False, compress_alg = NONE_COMPRESS, segno = 0\<rparr>"


section \<open>A rolling checksum\<close>

text \<open>
  What makes \<^verbatim>\<open>COMP_FILE_CRC32\<close> a rolling checksum for a polynomial: feeding no bytes
  changes nothing, and feeding two buffers in turn is feeding their concatenation.
\<close>

definition rolling_crc :: "env \<Rightarrow> bool \<Rightarrow> bool" where
  "rolling_crc E u \<longleftrightarrow>
     (\<forall>c. COMP_FILE_CRC32 E u c [] = c) \<and>
     (\<forall>c a b. COMP_FILE_CRC32 E u (COMP_FILE_CRC32 E u c a) b = COMP_FILE_CRC32 E u c (a @ b))"

text \<open>
  A stream of frames that hold their pages as they are: for each block number and page, the
  header with \<^verbatim>\<open>compressed_size = BLCKSZ\<close> and the page.
\<close>

definition raw_stream :: "(BlockNumber \<times> page) list \<Rightarrow> byte list" where
  "raw_stream frames = concat (map (\<lambda>(b, pg). header_bytes b (int BLCKSZ) @ pg) frames)"

text \<open>
  An environment in which nothing fails and whose two checksums differ: the one of crc32c
  counts the bytes, the older one counts them twice.
\<close>

definition counting_env :: env where
  "counting_env =
     quiet_env\<lparr>COMP_FILE_CRC32 :=
       (\<lambda>crc32c crc0 bs. crc0 + (if crc32c then 1 else 2) * word_of_nat (length bs))\<rparr>"


section \<open>A backup and its restore\<close>

text \<open>
  The frame that \<^const>\<open>compress_and_backup_page\<close> writes for a page, the frames of a
  backup (the buffers written to the output, in order) and its stream (the frames one after
  the other).
\<close>

definition frame_of :: "env \<Rightarrow> CompressAlg \<Rightarrow> int \<Rightarrow> BlockNumber \<Rightarrow> page \<Rightarrow> byte list" where
  "frame_of E calg clevel blknum pg =
     (case do_compress E (buf_bytes pg BLCKSZ) calg clevel of
        (compressed_size, compressed_page, errormsg) \<Rightarrow>
          frame_buffer E blknum pg compressed_size compressed_page)"

definition backup_frames ::
  "env \<Rightarrow> pgFile \<Rightarrow> XLogRecPtr \<Rightarrow> BackupMode \<Rightarrow> CompressAlg \<Rightarrow> int \<Rightarrow> nat \<Rightarrow> int \<Rightarrow> bool \<Rightarrow>
   byte list list option" where
  "backup_frames E file prev_backup_start_lsn backup_mode calg clevel checksum_version
       ptrack_version_num missing_ok =
     (case backup_data_file E file prev_backup_start_lsn backup_mode calg clevel checksum_version
             ptrack_version_num missing_ok of
        Inl e \<Rightarrow> None
      | Inr (file', tr, lg) \<Rightarrow> Some (written tr))"

definition backup_stream ::
  "env \<Rightarrow> pgFile \<Rightarrow> XLogRecPtr \<Rightarrow> BackupMode \<Rightarrow> CompressAlg \<Rightarrow> int \<Rightarrow> nat \<Rightarrow> int \<Rightarrow> bool \<Rightarrow>
   byte list option" where
  "backup_stream E file prev_backup_start_lsn backup_mode calg clevel checksum_version
       ptrack_version_num missing_ok =
     map_option concat
       (backup_frames E file prev_backup_start_lsn backup_mode calg clevel checksum_version
          ptrack_version_num missing_ok)"

text \<open>
  What \<^const>\<open>restore_data_file_internal\<close> leaves in a destination that was empty, from
  one stream.
\<close>

definition restored :: "env \<Rightarrow> pgFile \<Rightarrow> nat \<Rightarrow> int \<Rightarrow> byte list \<Rightarrow> byte list option" where
  "restored E file backup_version nblocks inp =
     (case restore_data_file_internal E file backup_version nblocks inp of
        Inl e \<Rightarrow> None
      | Inr (write_len, tr, lg) \<Rightarrow> Some (fst (apply_events tr ([], 0))))"

text \<open>
  The conditions of a round trip. The source file holds the blocks \<open>src 0\<close>, ...,
  \<open>src (n - 1)\<close>: the first read of each returns it whole, and it is classified valid.
  No page is one that a DELTA backup leaves to the parent backup. The page map, when it is
  not absent, has the bit of every block set. The codec gives back the page it compressed.
  The fields of the file record that the loop of the backup reads and does not change.
\<close>

definition source_blocks :: "env \<Rightarrow> pgFile \<Rightarrow> nat \<Rightarrow> nat \<Rightarrow> (nat \<Rightarrow> page) \<Rightarrow> bool" where
  "source_blocks E file checksum_version n src \<longleftrightarrow>
     (\<forall>i<n. valid_read E file (word_of_nat i) checksum_version 0 (src i))"

definition no_delta_skip ::
  "BackupMode \<Rightarrow> pgFile \<Rightarrow> XLogRecPtr \<Rightarrow> nat \<Rightarrow> (nat \<Rightarrow> page) \<Rightarrow> bool" where
  "no_delta_skip backup_mode file prev_backup_start_lsn n src \<longleftrightarrow>
     (backup_mode = BACKUP_MODE_DIFF_DELTA \<and> exists_in_prev file \<longrightarrow>
        (\<forall>i<n. PageXLogRecPtrGet (src i) = 0 \<or>
                \<not> PageXLogRecPtrGet (src i) < prev_backup_start_lsn))"

definition pagemap_selects_all :: "pgFile \<Rightarrow> nat \<Rightarrow> bool" where
  "pagemap_selects_all file n \<longleftrightarrow>
     (case pagemap_bitmap file of
        None \<Rightarrow> False
      | Some bitmap \<Rightarrow>
          (\<forall>i<n. int (i div 8) < pagemap_bitmapsize file \<and> bit (bitmap ! (i div 8)) (i mod 8)))"

definition codec_round_trip :: "env \<Rightarrow> CompressAlg \<Rightarrow> int \<Rightarrow> page \<Rightarrow> bool" where
  "codec_round_trip E calg clevel pg \<longleftrightarrow>
     (case do_compress E (buf_bytes pg BLCKSZ) calg clevel of
        (compressed_size, compressed_page, errormsg) \<Rightarrow>
          0 < compressed_size \<and> compressed_size < int BLCKSZ \<longrightarrow>
            (case do_decompress E (buf_bytes compressed_page (nat compressed_size)) calg of
               (uncompressed_len, dst, errormsg') \<Rightarrow>
                 uncompressed_len = int BLCKSZ \<and> buf_bytes dst BLCKSZ = pg))"

definition same_relation :: "pgFile \<Rightarrow> pgFile \<Rightarrow> bool" where
  "same_relation f g \<longleftrightarrow>
     segno f = segno g \<and> exists_in_prev f = exists_in_prev g \<and>
     pagemap_bitmap f = pagemap_bitmap g \<and> pagemap_bitmapsize f = pagemap_bitmapsize g"

text \<open>
  A source file in an environment where nothing fails: the read of block \<open>i\<close> returns a
  sound page whose lsn is \<open>i + 1\<close>.
\<close>

definition numbered_page :: "nat \<Rightarrow> page" where
  "numbered_page i = page_with_lsn (word_of_nat (i + 1))"

definition reading_env :: env where
  "reading_env =
     quiet_env\<lparr>fio_pread := (\<lambda>offset attempt. Pread_bytes (numbered_page (offset div BLCKSZ)))\<rparr>"


section \<open>Bytes, words and alignment\<close>

lemma MAXALIGN_nat: "0 \<le> c \<Longrightarrow> c < 2 ^ 32 \<Longrightarrow> MAXALIGN c = (nat c + 7) div 8 * 8"
  unfolding MAXALIGN_def by (simp add: nat_div_distrib nat_add_distrib nat_mult_distrib)

lemma get_put_u32: "get_u32 (put_u32 w @ xs) 0 = w"
proof (rule bit_word_eqI)
  fix n assume "n < LENGTH(32)"
  then consider "n < 8" | "8 \<le> n" "n < 16" | "16 \<le> n" "n < 24" | "24 \<le> n" "n < 32"
    by force
  then show "bit (get_u32 (put_u32 w @ xs) 0) n = bit w n"
    by cases (auto simp add: get_u32_def put_u32_def bit_simps)
qed

lemma get_put_u32_4: "get_u32 (put_u32 v @ put_u32 w @ xs) 4 = w"
proof -
  have "get_u32 (put_u32 v @ put_u32 w @ xs) 4 = get_u32 (put_u32 w @ xs) 0"
    by (simp add: get_u32_def put_u32_def)
  then show ?thesis by (simp add: get_put_u32)
qed

lemma sint_cs: "- (2 ^ 31) \<le> c \<Longrightarrow> c < 2 ^ 31 \<Longrightarrow> sint (word_of_int c :: 32 word) = c"
  by (simp add: sint_sbintrunc' signed_take_bit_int_eq_self)

lemma zero_scan_all:
  "i \<le> BLCKSZ \<Longrightarrow> zero_scan p i = BLCKSZ \<longleftrightarrow> (\<forall>j. i \<le> j \<and> j < BLCKSZ \<longrightarrow> p ! j = 0)"
proof (induction p i rule: zero_scan.induct)
  case (1 p i)
  show ?case
  proof (cases "i < BLCKSZ \<and> p ! i = 0")
    case True
    then have "zero_scan p i = zero_scan p (i + 1)"
      by (subst zero_scan.simps) simp
    moreover from True have "zero_scan p (i + 1) = BLCKSZ \<longleftrightarrow>
        (\<forall>j. i + 1 \<le> j \<and> j < BLCKSZ \<longrightarrow> p ! j = 0)"
      by (intro "1.IH") simp_all
    moreover from True have "(\<forall>j. i + 1 \<le> j \<and> j < BLCKSZ \<longrightarrow> p ! j = 0) \<longleftrightarrow>
        (\<forall>j. i \<le> j \<and> j < BLCKSZ \<longrightarrow> p ! j = 0)"
      by (metis Suc_eq_plus1 Suc_leI le_neq_implies_less le_SucI not_less_eq_eq)
    ultimately show ?thesis by simp
  next
    case False
    then have eq: "zero_scan p i = i"
      by (subst zero_scan.simps) auto
    show ?thesis
    proof (cases "i < BLCKSZ")
      case True
      with False have "p ! i \<noteq> 0" by simp
      with True eq show ?thesis by auto
    next
      case False
      with "1.prems" eq show ?thesis by auto
    qed
  qed
qed

lemma zero_scan_eq: "zero_scan p 0 = BLCKSZ \<longleftrightarrow> all_bytes_zero p"
  by (auto simp add: zero_scan_all all_bytes_zero_def)

lemma MAXALIGN_u16: "unat (w :: 16 word) = MAXALIGN (uint w) \<longleftrightarrow> unat w mod 8 = 0"
proof -
  have "uint w < 65536" using uint_bounded [of w] by simp
  moreover have "0 \<le> uint w" by simp
  ultimately have "MAXALIGN (uint w) = (unat w + 7) div 8 * 8"
    by (simp add: MAXALIGN_nat)
  then show ?thesis by presburger
qed

lemma header_invariants_parse: "fst (parse_page p) \<longleftrightarrow> header_invariants p"
  by (simp add: parse_page_def header_invariants_def MAXALIGN_u16)

lemma parse_page_lsn: "snd (parse_page p) = PageXLogRecPtrGet p"
  by (simp add: parse_page_def)

lemma validate_one_page_Some:
  "validate_one_page cksum (Some p) blk stop_lsn lsn0 cv =
     (if \<not> header_invariants p then
        (if all_bytes_zero p then PAGE_IS_ZEROED else PAGE_HEADER_IS_INVALID)
      else if cv \<noteq> 0 \<and> cksum p blk \<noteq> pd_checksum p then PAGE_CHECKSUM_MISMATCH
      else if stop_lsn > 0 \<and> PageXLogRecPtrGet p > stop_lsn then PAGE_LSN_FROM_FUTURE
      else PAGE_IS_VALID,
      PageXLogRecPtrGet p)"
  by (simp add: validate_one_page_def case_prod_beta zero_scan_eq
        header_invariants_parse parse_page_lsn)

text \<open>
  C2. For every page buffer (null or not), block number, stop_lsn and checksum setting,
  \<^const>\<open>validate_one_page\<close> returns the class that the rules of the specification give
  when they are applied in their order: null page, failed header invariants (zeroed or
  invalid), checksum mismatch, lsn from the future, valid.
\<close>

theorem validate_one_page_follows_rules:
  "fst (validate_one_page cksum pg absolute_blkno stop_lsn lsn0 checksum_version) =
     spec_classification cksum pg absolute_blkno stop_lsn (checksum_version \<noteq> 0)"
proof (cases pg)
  case None
  then show ?thesis by (simp add: validate_one_page_def spec_classification_def)
next
  case (Some p)
  then show ?thesis by (simp add: validate_one_page_Some spec_classification_def)
qed

lemma page_may_be_compressed_iff:
  "page_may_be_compressed p alg v \<longleftrightarrow>
     \<not> header_invariants p \<and> v < 20023 \<and> (alg = ZLIB_COMPRESS \<longrightarrow> p ! 0 = ZLIB_MAGIC)"
  unfolding page_may_be_compressed_def header_invariants_def MAXALIGN_u16
  by (cases "v < 20023") auto

lemma length_page_with_lsn: "length (page_with_lsn l) = BLCKSZ"
  by (simp add: page_with_lsn_def BLCKSZ_def)

lemma page_with_lsn_fields:
  "pd_checksum (page_with_lsn l) = 0"
  "pd_flags (page_with_lsn l) = 0"
  "pd_lower (page_with_lsn l) = 24"
  "pd_upper (page_with_lsn l) = 8192"
  "pd_special (page_with_lsn l) = 8192"
  "pd_pagesize_version (page_with_lsn l) = 8196"
  by (simp_all add: page_with_lsn_def pd_checksum_def pd_flags_def pd_lower_def pd_upper_def
      pd_special_def pd_pagesize_version_def get_u16_def nth_append)

lemma page_with_lsn_lsn: "PageXLogRecPtrGet (page_with_lsn l) = ucast l"
  by (simp add: page_with_lsn_def PageXLogRecPtrGet_def get_u32_def nth_append)
    (rule bit_word_eqI, auto simp add: bit_simps dest: bit_imp_le_length)

lemma page_with_lsn_sound: "header_invariants (page_with_lsn l)"
  by (simp add: header_invariants_def page_with_lsn_fields PageGetPageSize_def BLCKSZ_def
      SizeOfPageHeaderData_def PD_VALID_FLAG_BITS_def)

lemma torn_page_length: "length torn_page = BLCKSZ"
  by (simp add: torn_page_def BLCKSZ_def)

lemma torn_page_first: "torn_page ! 0 = 0x78"
  by (simp add: torn_page_def)

lemma zero_page_first: "replicate BLCKSZ 0 ! 0 = (0 :: byte)"
  by (simp add: BLCKSZ_def)

lemma torn_page_broken: "\<not> header_invariants torn_page"
  by (simp add: header_invariants_def torn_page_def PageGetPageSize_def pd_pagesize_version_def
      get_u16_def BLCKSZ_def)

lemma torn_page_not_zeroed: "\<not> all_bytes_zero torn_page"
proof
  assume "all_bytes_zero torn_page"
  then have "torn_page ! 0 = 0"
    by (simp add: all_bytes_zero_def BLCKSZ_def)
  then show False by (simp add: torn_page_def)
qed

lemma zero_page_zeroed: "all_bytes_zero (replicate BLCKSZ 0)"
  by (simp add: all_bytes_zero_def)

lemma zero_page_broken: "\<not> header_invariants (replicate BLCKSZ 0)"
  by (simp add: header_invariants_def PageGetPageSize_def pd_pagesize_version_def
      get_u16_def BLCKSZ_def)

theorem validate_one_page_follows_rules_witness:
  "fst (validate_one_page (\<lambda>p b. 0) (Some (page_with_lsn 5)) 0 3 0 1) = PAGE_LSN_FROM_FUTURE \<and>
   fst (validate_one_page (\<lambda>p b. 0) (Some (page_with_lsn 5)) 0 0 0 1) = PAGE_IS_VALID \<and>
   fst (validate_one_page (\<lambda>p b. 7) (Some (page_with_lsn 5)) 0 3 0 1) = PAGE_CHECKSUM_MISMATCH \<and>
   fst (validate_one_page (\<lambda>p b. 0) (Some torn_page) 0 3 0 1) = PAGE_HEADER_IS_INVALID \<and>
   fst (validate_one_page (\<lambda>p b. 0) (Some (replicate BLCKSZ 0)) 0 3 0 1) = PAGE_IS_ZEROED \<and>
   fst (validate_one_page (\<lambda>p b. 0) None 0 3 0 1) = PAGE_IS_NOT_FOUND"
  using validate_one_page_follows_rules [of "\<lambda>p b. 0" "Some (page_with_lsn 5)" 0 3 0 1]
    validate_one_page_follows_rules [of "\<lambda>p b. 0" "Some (page_with_lsn 5)" 0 0 0 1]
    validate_one_page_follows_rules [of "\<lambda>p b. 7" "Some (page_with_lsn 5)" 0 3 0 1]
    validate_one_page_follows_rules [of "\<lambda>p b. 0" "Some torn_page" 0 3 0 1]
    validate_one_page_follows_rules [of "\<lambda>p b. 0" "Some (replicate BLCKSZ 0)" 0 3 0 1]
    validate_one_page_follows_rules [of "\<lambda>p b. 0" None 0 3 0 1]
  by (simp add: spec_classification_def page_with_lsn_sound page_with_lsn_lsn
      page_with_lsn_fields(1) torn_page_broken torn_page_not_zeroed zero_page_zeroed
      zero_page_broken)

text \<open>
  C10. \<^const>\<open>page_may_be_compressed\<close> answers true exactly when the page fails the header
  test of \<^const>\<open>parse_page\<close>, the producer version is below 2.0.23 and, for zlib, the first
  byte is 0x78; from version 2.0.23 on it answers false for every page.
\<close>

theorem page_may_be_compressed_heuristic:
  "(page_may_be_compressed p alg backup_version \<longleftrightarrow>
      \<not> fst (parse_page p) \<and> backup_version < 20023 \<and>
      (alg = ZLIB_COMPRESS \<longrightarrow> p ! 0 = 0x78)) \<and>
   (backup_version \<ge> 20023 \<longrightarrow> \<not> page_may_be_compressed p alg backup_version)"
  by (simp add: page_may_be_compressed_iff header_invariants_parse ZLIB_MAGIC_def)

theorem page_may_be_compressed_heuristic_witness:
  "page_may_be_compressed torn_page ZLIB_COMPRESS 20022 \<and>
   \<not> page_may_be_compressed torn_page ZLIB_COMPRESS 20023 \<and>
   \<not> page_may_be_compressed (replicate BLCKSZ 0) ZLIB_COMPRESS 20022 \<and>
   page_may_be_compressed (replicate BLCKSZ 0) PGLZ_COMPRESS 20022 \<and>
   \<not> page_may_be_compressed (page_with_lsn 5) PGLZ_COMPRESS 20022"
  using page_may_be_compressed_heuristic [of torn_page ZLIB_COMPRESS 20022]
    page_may_be_compressed_heuristic [of torn_page ZLIB_COMPRESS 20023]
    page_may_be_compressed_heuristic [of "replicate BLCKSZ 0" ZLIB_COMPRESS 20022]
    page_may_be_compressed_heuristic [of "replicate BLCKSZ 0" PGLZ_COMPRESS 20022]
    page_may_be_compressed_heuristic [of "page_with_lsn 5" PGLZ_COMPRESS 20022]
  by (simp add: header_invariants_parse torn_page_broken zero_page_broken page_with_lsn_sound
      torn_page_first zero_page_first)

section \<open>Retrieving one page: re-reads and the DELTA skip\<close>

lemma BLCKSZ_pos: "0 < BLCKSZ" by (simp add: BLCKSZ_def)

lemma read_attempts_step_torn:
  assumes "torn_read E file blknum cv (PAGE_READ_ATTEMPTS - Suc m)"
  shows "\<exists>bs c e. read_attempts E blknum (absolute_block file blknum) mode cv
                  (Suc m) pg rc lg =
               read_attempts E blknum (absolute_block file blknum) mode cv
                  m bs (Some c) (lg @ [(VERBOSE, e)]) \<and>
               (c = PAGE_HEADER_IS_INVALID \<or> c = PAGE_CHECKSUM_MISMATCH)"
proof -
  from assms obtain p where
    rd: "fio_pread E (unat (blknum * word_of_nat BLCKSZ)) (PAGE_READ_ATTEMPTS - Suc m) = Pread_bytes p"
    and len: "length p = BLCKSZ"
    and cls: "class_of_read E file blknum cv p = PAGE_HEADER_IS_INVALID \<or>
              class_of_read E file blknum cv p = PAGE_CHECKSUM_MISMATCH"
    by (auto simp add: torn_read_def split: pread_result.splits)
  obtain c l where v: "validate_one_page (pg_checksum_page E) (Some p)
            (absolute_block file blknum) 0 0 cv = (c, l)"
    by (cases "validate_one_page (pg_checksum_page E) (Some p)
            (absolute_block file blknum) 0 0 cv")
  with cls have c: "c = PAGE_HEADER_IS_INVALID \<or> c = PAGE_CHECKSUM_MISMATCH"
    by (simp add: class_of_read_def)
  from c show ?thesis
  proof
    assume "c = PAGE_HEADER_IS_INVALID"
    with rd len v BLCKSZ_pos have
      "read_attempts E blknum (absolute_block file blknum) mode cv (Suc m) pg rc lg =
       read_attempts E blknum (absolute_block file blknum) mode cv m p (Some PAGE_HEADER_IS_INVALID)
         (lg @ [(VERBOSE, Msg_block ''wrong page header, try again'' blknum)])"
      by simp
    then show ?thesis by blast
  next
    assume "c = PAGE_CHECKSUM_MISMATCH"
    with rd len v BLCKSZ_pos have
      "read_attempts E blknum (absolute_block file blknum) mode cv (Suc m) pg rc lg =
       read_attempts E blknum (absolute_block file blknum) mode cv m p (Some PAGE_CHECKSUM_MISMATCH)
         (lg @ [(VERBOSE, Msg_block ''wrong checksum, try again'' blknum)])"
      by simp
    then show ?thesis by blast
  qed
qed

lemma read_attempts_step_valid:
  assumes "valid_read E file blknum cv (PAGE_READ_ATTEMPTS - Suc m) p"
  shows "read_attempts E blknum (absolute_block file blknum) mode cv
           (Suc m) pg rc lg =
         Inr (if mode = BACKUP_MODE_DIFF_DELTA then Loop_valid p (PageXLogRecPtrGet p) lg
              else Loop_return PageIsOk p lg)"
proof -
  from assms have
    rd: "fio_pread E (unat (blknum * word_of_nat BLCKSZ)) (PAGE_READ_ATTEMPTS - Suc m) = Pread_bytes p"
    and len: "length p = BLCKSZ"
    and cls: "class_of_read E file blknum cv p = PAGE_IS_VALID"
    by (simp_all add: valid_read_def)
  have "validate_one_page (pg_checksum_page E) (Some p)
            (absolute_block file blknum) 0 0 cv = (PAGE_IS_VALID, PageXLogRecPtrGet p)"
    using cls by (simp add: class_of_read_def validate_one_page_Some split: if_splits)
  with rd len BLCKSZ_pos show ?thesis by simp
qed

lemma read_attempts_torn:
  assumes "\<forall>i<k. torn_read E file blknum cv (a + i)"
    and "a + n = PAGE_READ_ATTEMPTS" and "k \<le> n" and "verbose_only lg"
  shows "\<exists>pg' rc' lg'.
           read_attempts E blknum (absolute_block file blknum) mode cv n pg rc lg =
           read_attempts E blknum (absolute_block file blknum) mode cv (n - k) pg' rc' lg' \<and>
           verbose_only lg' \<and>
           (0 < k \<longrightarrow> rc' = Some PAGE_HEADER_IS_INVALID \<or> rc' = Some PAGE_CHECKSUM_MISMATCH)"
  using assms
proof (induction k arbitrary: a n pg rc lg)
  case 0
  then show ?case by auto
next
  case (Suc k)
  then obtain m where n: "n = Suc m" by (cases n) auto
  from Suc.prems(1) have "torn_read E file blknum cv (a + 0)" by blast
  moreover from n Suc.prems(2) have "PAGE_READ_ATTEMPTS - Suc m = a" by arith
  ultimately have t: "torn_read E file blknum cv (PAGE_READ_ATTEMPTS - Suc m)" by simp
  from read_attempts_step_torn [OF t, of mode pg rc lg] obtain bs c e where
    step: "read_attempts E blknum (absolute_block file blknum) mode cv (Suc m) pg rc lg =
           read_attempts E blknum (absolute_block file blknum) mode cv m bs (Some c) (lg @ [(VERBOSE, e)])"
    and c: "c = PAGE_HEADER_IS_INVALID \<or> c = PAGE_CHECKSUM_MISMATCH"
    by blast
  have idx: "\<forall>i<k. torn_read E file blknum cv (Suc a + i)"
  proof (intro allI impI)
    fix i assume "i < k"
    then have "Suc i < Suc k" by simp
    with Suc.prems(1) have "torn_read E file blknum cv (a + Suc i)"
      by blast
    then show "torn_read E file blknum cv (Suc a + i)" by simp
  qed
  have vo: "verbose_only (lg @ [(VERBOSE, e)])"
    using Suc.prems(4) by (simp add: verbose_only_def)
  have am: "Suc a + m = PAGE_READ_ATTEMPTS" using n Suc.prems(2) by simp
  have km: "k \<le> m" using n Suc.prems(3) by simp
  from Suc.IH [OF idx am km vo, of bs "Some c"] obtain pg' rc' lg' where
    rest: "read_attempts E blknum (absolute_block file blknum) mode cv m bs (Some c) (lg @ [(VERBOSE, e)]) =
           read_attempts E blknum (absolute_block file blknum) mode cv (m - k) pg' rc' lg'"
    and vo': "verbose_only lg'"
    and rc': "0 < k \<longrightarrow> rc' = Some PAGE_HEADER_IS_INVALID \<or> rc' = Some PAGE_CHECKSUM_MISMATCH"
    by blast
  show ?case
  proof (cases "k = 0")
    case True
    with step c vo n show ?thesis
      by (intro exI [of _ bs] exI [of _ "Some c"] exI [of _ "lg @ [(VERBOSE, e)]"]) auto
  next
    case False
    with step rest vo' rc' n show ?thesis
      by (intro exI [of _ pg'] exI [of _ rc'] exI [of _ lg']) auto
  qed
qed

text \<open>The read path of \<^const>\<open>prepare_page\<close> when a valid page comes after \<open>k\<close> torn ones.\<close>

lemma prepare_page_read_valid:
  assumes torn: "\<forall>i<k. torn_read E file blknum cv i"
    and k: "k < PAGE_READ_ATTEMPTS"
    and valid: "valid_read E file blknum cv k p"
  shows "\<exists>lg. verbose_only lg \<and>
           prepare_page_read E file blknum (absolute_block file blknum) mode pg strict cv =
             Inr (if mode = BACKUP_MODE_DIFF_DELTA \<and> strict
                  then Continue p (PageXLogRecPtrGet p) lg else Return PageIsOk p lg)"
proof -
  from torn have torn': "\<forall>i<k. torn_read E file blknum cv (0 + i)" by simp
  have vo: "verbose_only []" by (simp add: verbose_only_def)
  from k have kn: "k \<le> PAGE_READ_ATTEMPTS" by simp
  from read_attempts_torn [OF torn' _ kn vo, of mode pg None] obtain pg' rc' lg' where
    skip: "read_attempts E blknum (absolute_block file blknum) mode cv PAGE_READ_ATTEMPTS pg None [] =
           read_attempts E blknum (absolute_block file blknum) mode cv (PAGE_READ_ATTEMPTS - k) pg' rc' lg'"
    and vo': "verbose_only lg'"
    by auto
  from k obtain m where m: "PAGE_READ_ATTEMPTS - k = Suc m"
    by (cases "PAGE_READ_ATTEMPTS - k") auto
  with k have "PAGE_READ_ATTEMPTS - Suc m = k" by arith
  with valid have "valid_read E file blknum cv (PAGE_READ_ATTEMPTS - Suc m) p" by simp
  from read_attempts_step_valid [OF this, of mode pg' rc' lg'] skip m
  have "read_attempts E blknum (absolute_block file blknum) mode cv PAGE_READ_ATTEMPTS pg None [] =
        Inr (if mode = BACKUP_MODE_DIFF_DELTA then Loop_valid p (PageXLogRecPtrGet p) lg'
              else Loop_return PageIsOk p lg')"
    by simp
  then have "prepare_page_read E file blknum (absolute_block file blknum) mode pg strict cv =
             Inr (if mode = BACKUP_MODE_DIFF_DELTA \<and> strict
                  then Continue p (PageXLogRecPtrGet p) lg' else Return PageIsOk p lg')"
    by (simp add: prepare_page_read_def)
  with vo' show ?thesis by blast
qed

lemma prepare_page_valid:
  assumes "\<not> interrupted E"
    and "mode \<noteq> BACKUP_MODE_DIFF_PTRACK \<or> ptrack_version_num \<ge> 20"
    and "\<forall>i<k. torn_read E file blknum cv i"
    and "k < PAGE_READ_ATTEMPTS"
    and "valid_read E file blknum cv k p"
  shows "\<exists>lg. verbose_only lg \<and>
           prepare_page E file prev_lsn blknum mode pg strict cv ptrack_version_num =
             Inr (if mode = BACKUP_MODE_DIFF_DELTA \<and> strict \<and> exists_in_prev file \<and>
                     PageXLogRecPtrGet p \<noteq> 0 \<and> PageXLogRecPtrGet p < prev_lsn
                  then SkipCurrentPage else PageIsOk, p, lg)"
proof -
  from prepare_page_read_valid [OF assms(3,4,5), of mode pg strict] obtain lg where
    vo: "verbose_only lg"
    and rd: "prepare_page_read E file blknum (absolute_block file blknum) mode pg strict cv =
             Inr (if mode = BACKUP_MODE_DIFF_DELTA \<and> strict
                  then Continue p (PageXLogRecPtrGet p) lg else Return PageIsOk p lg)"
    by blast
  show ?thesis
  proof (cases "mode = BACKUP_MODE_DIFF_DELTA \<and> strict")
    case True
    show ?thesis
    proof (cases "exists_in_prev file \<and> PageXLogRecPtrGet p \<noteq> 0 \<and> PageXLogRecPtrGet p < prev_lsn")
      case skip: True
      with True rd assms(1) have
        "prepare_page E file prev_lsn blknum mode pg strict cv ptrack_version_num =
           Inr (SkipCurrentPage, p, lg @ [(VERBOSE, Msg_block ''Skipping blknum'' blknum)])"
        by (simp add: prepare_page_def)
      moreover from vo have "verbose_only (lg @ [(VERBOSE, Msg_block ''Skipping blknum'' blknum)])"
        by (simp add: verbose_only_def)
      ultimately show ?thesis using True skip by auto
    next
      case False
      with True rd assms(1) have
        "prepare_page E file prev_lsn blknum mode pg strict cv ptrack_version_num =
           Inr (PageIsOk, p, lg)"
        by (auto simp add: prepare_page_def)
      with vo True False show ?thesis by auto
    qed
  next
    case False
    with rd assms(1,2) have
      "prepare_page E file prev_lsn blknum mode pg strict cv ptrack_version_num =
         Inr (PageIsOk, p, lg)"
      by (auto simp add: prepare_page_def)
    with vo False show ?thesis by auto
  qed
qed

lemma prepare_page_exhausted:
  assumes "\<not> interrupted E"
    and "mode \<noteq> BACKUP_MODE_DIFF_PTRACK \<or> ptrack_version_num \<ge> 20"
    and torn: "\<forall>i<PAGE_READ_ATTEMPTS. torn_read E file blknum cv i"
  shows "\<exists>pg' lg d.
           prepare_page E file prev_lsn blknum mode pg strict cv ptrack_version_num =
             (if strict then Inl (Corruption_detected blknum (Some d))
              else Inr (PageIsCorrupted, pg', lg @ [(WARNING, Corruption_detected blknum (Some d))]))"
proof -
  from torn have torn': "\<forall>i<PAGE_READ_ATTEMPTS. torn_read E file blknum cv (0 + i)" by simp
  have vo: "verbose_only []" by (simp add: verbose_only_def)
  from read_attempts_torn [OF torn' _ _ vo, of PAGE_READ_ATTEMPTS mode pg None]
  obtain pg' rc' lg' where
    "read_attempts E blknum (absolute_block file blknum) mode cv PAGE_READ_ATTEMPTS pg None [] =
       read_attempts E blknum (absolute_block file blknum) mode cv 0 pg' rc' lg'"
    and rc': "rc' = Some PAGE_HEADER_IS_INVALID \<or> rc' = Some PAGE_CHECKSUM_MISMATCH"
    by (auto simp add: PAGE_READ_ATTEMPTS_def)
  then have ex: "read_attempts E blknum (absolute_block file blknum) mode cv PAGE_READ_ATTEMPTS pg None [] =
       Inr (Loop_exhausted pg' rc' lg')"
    by simp
  from rc' obtain d where
    "prepare_page_read E file blknum (absolute_block file blknum) mode pg strict cv =
       (if strict then Inl (Corruption_detected blknum (Some d))
        else Inr (Return PageIsCorrupted pg' (lg' @ [(WARNING, Corruption_detected blknum (Some d))])))"
    using ex by (auto simp add: prepare_page_read_def)
  with assms(1,2) have
    "prepare_page E file prev_lsn blknum mode pg strict cv ptrack_version_num =
       (if strict then Inl (Corruption_detected blknum (Some d))
        else Inr (PageIsCorrupted, pg', lg' @ [(WARNING, Corruption_detected blknum (Some d))]))"
    by (auto simp add: prepare_page_def)
  then show ?thesis by blast
qed

lemma class_of_read_cases:
  "validate_one_page cksum (Some p) ab 0 0 cv = (c, l) \<Longrightarrow>
     c = PAGE_IS_ZEROED \<or> c = PAGE_IS_VALID \<or> c = PAGE_HEADER_IS_INVALID \<or>
     c = PAGE_CHECKSUM_MISMATCH"
  by (auto simp add: validate_one_page_Some split: if_splits)

lemma read_attempts_outcomes:
  "(read_attempts E blknum (absolute_block file blknum) mode cv n pg rc lg = Inl e \<longrightarrow>
      e = Msg_block ''Cannot read block'' blknum) \<and>
   (read_attempts E blknum (absolute_block file blknum) mode cv n pg rc lg = Inr (Loop_return st p' lg') \<longrightarrow>
      st = PageIsTruncated \<or> st = PageIsOk) \<and>
   (read_attempts E blknum (absolute_block file blknum) mode cv n pg rc lg = Inr (Loop_exhausted p' rc' lg') \<longrightarrow>
      a + n = PAGE_READ_ATTEMPTS \<longrightarrow> (\<forall>i<n. failed_read E file blknum cv (a + i)))"
proof (induction n arbitrary: a pg rc lg)
  case 0
  show ?case by simp
next
  case (Suc m)
  show ?case
  proof (cases "fio_pread E (unat (blknum * word_of_nat BLCKSZ)) (PAGE_READ_ATTEMPTS - Suc m)")
    case Pread_error
    then show ?thesis by simp
  next
    case (Pread_bytes bs)
    show ?thesis
    proof (cases "length bs = 0")
      case True
      with Pread_bytes show ?thesis by simp
    next
      case nonempty: False
      have idx: "a + Suc m = PAGE_READ_ATTEMPTS \<Longrightarrow> PAGE_READ_ATTEMPTS - Suc m = a" for a
        by arith
      have shift: "\<forall>i<m. failed_read E file blknum cv (Suc a + i) \<Longrightarrow>
                   failed_read E file blknum cv a \<Longrightarrow>
                   \<forall>i<Suc m. failed_read E file blknum cv (a + i)" for a
      proof (intro allI impI)
        fix i
        assume all: "\<forall>i<m. failed_read E file blknum cv (Suc a + i)"
          and first: "failed_read E file blknum cv a" and i: "i < Suc m"
        show "failed_read E file blknum cv (a + i)"
        proof (cases i)
          case 0
          with first show ?thesis by simp
        next
          case (Suc j)
          with i have "j < m" by simp
          with all have "failed_read E file blknum cv (Suc a + j)" by blast
          with Suc show ?thesis by simp
        qed
      qed
      show ?thesis
      proof (cases "length bs \<noteq> BLCKSZ")
        case True
        with nonempty Pread_bytes have step:
          "read_attempts E blknum (absolute_block file blknum) mode cv (Suc m) pg rc lg =
           read_attempts E blknum (absolute_block file blknum) mode cv m (bs @ drop (length bs) pg) rc
             (lg @ [(WARNING, Msg_block ''Cannot read block: short read, try again'' blknum)])"
          by simp
        have fr: "a + Suc m = PAGE_READ_ATTEMPTS \<Longrightarrow> failed_read E file blknum cv a" for a
          using True nonempty Pread_bytes idx [of a] by (simp add: failed_read_def)
        show ?thesis
          unfolding step
          using Suc.IH [of "bs @ drop (length bs) pg" rc
              "lg @ [(WARNING, Msg_block ''Cannot read block: short read, try again'' blknum)]" "Suc a"]
            shift [of a] fr [of a]
          by auto
      next
        case False
        then have len: "length bs = BLCKSZ" by simp
        obtain c l where v: "validate_one_page (pg_checksum_page E) (Some bs)
            (absolute_block file blknum) 0 0 cv = (c, l)"
          by (cases "validate_one_page (pg_checksum_page E) (Some bs)
            (absolute_block file blknum) 0 0 cv")
        from class_of_read_cases [OF v] consider
          "c = PAGE_IS_ZEROED" | "c = PAGE_IS_VALID" | "c = PAGE_HEADER_IS_INVALID" |
          "c = PAGE_CHECKSUM_MISMATCH" by blast
        then show ?thesis
        proof cases
          case 1
          with Pread_bytes len v BLCKSZ_pos show ?thesis by simp
        next
          case 2
          with Pread_bytes len v BLCKSZ_pos show ?thesis by simp
        next
          case 3
          with Pread_bytes len v BLCKSZ_pos have step:
            "read_attempts E blknum (absolute_block file blknum) mode cv (Suc m) pg rc lg =
             read_attempts E blknum (absolute_block file blknum) mode cv m bs (Some PAGE_HEADER_IS_INVALID)
               (lg @ [(VERBOSE, Msg_block ''wrong page header, try again'' blknum)])"
            by simp
          have fr: "a + Suc m = PAGE_READ_ATTEMPTS \<Longrightarrow> failed_read E file blknum cv a" for a
            using 3 len v Pread_bytes idx [of a]
            by (simp add: failed_read_def torn_read_def class_of_read_def)
          show ?thesis
            unfolding step
            using Suc.IH [of bs "Some PAGE_HEADER_IS_INVALID"
                "lg @ [(VERBOSE, Msg_block ''wrong page header, try again'' blknum)]" "Suc a"]
              shift [of a] fr [of a]
            by auto
        next
          case 4
          with Pread_bytes len v BLCKSZ_pos have step:
            "read_attempts E blknum (absolute_block file blknum) mode cv (Suc m) pg rc lg =
             read_attempts E blknum (absolute_block file blknum) mode cv m bs (Some PAGE_CHECKSUM_MISMATCH)
               (lg @ [(VERBOSE, Msg_block ''wrong checksum, try again'' blknum)])"
            by simp
          have fr: "a + Suc m = PAGE_READ_ATTEMPTS \<Longrightarrow> failed_read E file blknum cv a" for a
            using 4 len v Pread_bytes idx [of a]
            by (simp add: failed_read_def torn_read_def class_of_read_def)
          show ?thesis
            unfolding step
            using Suc.IH [of bs "Some PAGE_CHECKSUM_MISMATCH"
                "lg @ [(VERBOSE, Msg_block ''wrong checksum, try again'' blknum)]" "Suc a"]
              shift [of a] fr [of a]
            by auto
        qed
      qed
    qed
  qed
qed

lemma prepare_page_corruption_only_after_all_attempts:
  assumes "\<not> interrupted E"
    and "mode \<noteq> BACKUP_MODE_DIFF_PTRACK \<or> ptrack_version_num \<ge> 20"
    and "prepare_page E file prev_lsn blknum mode pg strict cv ptrack_version_num =
           Inl (Corruption_detected b d) \<or>
         prepare_page E file prev_lsn blknum mode pg strict cv ptrack_version_num =
           Inr (PageIsCorrupted, pg', lg')"
  shows "\<forall>i<PAGE_READ_ATTEMPTS. failed_read E file blknum cv i"
proof -
  let ?ra = "read_attempts E blknum (absolute_block file blknum) mode cv PAGE_READ_ATTEMPTS pg None []"
  have "\<exists>p rc lg. ?ra = Inr (Loop_exhausted p rc lg)"
  proof (cases ?ra)
    case (Inl e)
    with read_attempts_outcomes [where E = E and n = PAGE_READ_ATTEMPTS and pg = pg and rc = None and lg = "[]" and e = e]
    have "e = Msg_block ''Cannot read block'' blknum" by simp
    with Inl assms show ?thesis
      by (auto simp add: prepare_page_def prepare_page_read_def)
  next
    case (Inr out)
    show ?thesis
    proof (cases out)
      case (Loop_return st p lg)
      with Inr read_attempts_outcomes [where E = E and n = PAGE_READ_ATTEMPTS and pg = pg and rc = None and lg = "[]" and st = st and p' = p and lg' = lg]
      have "st = PageIsTruncated \<or> st = PageIsOk" by simp
      with Loop_return Inr assms show ?thesis
        by (auto simp add: prepare_page_def prepare_page_read_def)
    next
      case (Loop_valid p l lg)
      with Inr assms show ?thesis
        by (auto simp add: prepare_page_def prepare_page_read_def split: if_splits)
    next
      case (Loop_exhausted p rc lg)
      with Inr show ?thesis by simp
    qed
  qed
  then obtain p rc lg where "?ra = Inr (Loop_exhausted p rc lg)" by blast
  with read_attempts_outcomes [where E = E and n = PAGE_READ_ATTEMPTS and pg = pg and rc = None and lg = "[]" and p' = p and rc' = rc and lg' = lg and a = 0]
  show ?thesis by simp
qed

lemma prepare_page_first_read_valid:
  assumes "\<not> interrupted E"
    and "mode \<noteq> BACKUP_MODE_DIFF_PTRACK \<or> ptrack_version_num \<ge> 20"
    and "valid_read E file blknum cv 0 p"
  shows "prepare_page E file prev_lsn blknum mode pg strict cv ptrack_version_num =
           Inr (if mode = BACKUP_MODE_DIFF_DELTA \<and> strict \<and> exists_in_prev file \<and>
                   PageXLogRecPtrGet p \<noteq> 0 \<and> PageXLogRecPtrGet p < prev_lsn
                then (SkipCurrentPage, p, [(VERBOSE, Msg_block ''Skipping blknum'' blknum)])
                else (PageIsOk, p, []))"
proof -
  have "PAGE_READ_ATTEMPTS = Suc 99" by (simp add: PAGE_READ_ATTEMPTS_def)
  with assms(3) read_attempts_step_valid [of E "file" blknum cv 99 p mode pg None "[]"]
  have "read_attempts E blknum (absolute_block file blknum) mode cv PAGE_READ_ATTEMPTS pg None [] =
          Inr (if mode = BACKUP_MODE_DIFF_DELTA then Loop_valid p (PageXLogRecPtrGet p) []
               else Loop_return PageIsOk p [])"
    by simp
  with assms(1,2) show ?thesis
    by (auto simp add: prepare_page_def prepare_page_read_def)
qed

lemma class_of_page_with_lsn: "class_of_read E f b 0 (page_with_lsn l) = PAGE_IS_VALID"
  by (simp add: class_of_read_def validate_one_page_Some page_with_lsn_sound)

lemma class_of_torn_page: "class_of_read E f b cv torn_page = PAGE_HEADER_IS_INVALID"
  by (simp add: class_of_read_def validate_one_page_Some torn_page_broken torn_page_not_zeroed)

lemma quiet_env_simps:
  "interrupted quiet_env = False"
  "fopen_in quiet_env = Fopen_ok"
  "fio_is_remote_file quiet_env = False"
  "io_fails quiet_env op = False"
  "pg_ptrack_get_block quiet_env b = None"
  by (simp_all add: quiet_env_def)




text \<open>
  C4, as amended. \<^const>\<open>PAGE_READ_ATTEMPTS\<close> is 100. Where \<^const>\<open>prepare_page\<close> reads the
  block (any mode but PTRACK with a tracker older than 2.0) and is not interrupted: if the
  first \<open>k < 100\<close> attempts return torn pages and the next one a valid page, it returns
  that page, logging nothing above VERBOSE, with state \<^const>\<open>PageIsOk\<close>, or
  \<^const>\<open>SkipCurrentPage\<close> when the DELTA skip applies; if all 100 attempts return torn
  pages it reports the corruption, as an error when \<open>strict\<close> and as a warning with state
  \<^const>\<open>PageIsCorrupted\<close> otherwise; and it reports corruption only when each of the 100
  attempts failed (a short read or a torn page).
\<close>

theorem torn_read_resilience:
  assumes "\<not> interrupted E"
    and "backup_mode \<noteq> BACKUP_MODE_DIFF_PTRACK \<or> ptrack_version_num \<ge> 20"
  shows "PAGE_READ_ATTEMPTS = 100 \<and>
    (k < PAGE_READ_ATTEMPTS \<and> (\<forall>i<k. torn_read E file blknum checksum_version i) \<and>
       valid_read E file blknum checksum_version k p \<longrightarrow>
       (\<exists>lg. verbose_only lg \<and>
          prepare_page E file prev_backup_start_lsn blknum backup_mode pg strict checksum_version
            ptrack_version_num =
          Inr (if backup_mode = BACKUP_MODE_DIFF_DELTA \<and> strict \<and> exists_in_prev file \<and>
                  PageXLogRecPtrGet p \<noteq> 0 \<and> PageXLogRecPtrGet p < prev_backup_start_lsn
               then SkipCurrentPage else PageIsOk, p, lg))) \<and>
    ((\<forall>i<PAGE_READ_ATTEMPTS. torn_read E file blknum checksum_version i) \<longrightarrow>
       (\<exists>pg' lg d.
          prepare_page E file prev_backup_start_lsn blknum backup_mode pg strict checksum_version
            ptrack_version_num =
          (if strict then Inl (Corruption_detected blknum (Some d))
           else Inr (PageIsCorrupted, pg', lg @ [(WARNING, Corruption_detected blknum (Some d))])))) \<and>
    ((\<exists>b d. prepare_page E file prev_backup_start_lsn blknum backup_mode pg strict
               checksum_version ptrack_version_num = Inl (Corruption_detected b d)) \<or>
     (\<exists>pg' lg'. prepare_page E file prev_backup_start_lsn blknum backup_mode pg strict
               checksum_version ptrack_version_num = Inr (PageIsCorrupted, pg', lg')) \<longrightarrow>
       (\<forall>i<PAGE_READ_ATTEMPTS. failed_read E file blknum checksum_version i))"
proof (intro conjI impI)
  show "PAGE_READ_ATTEMPTS = 100" by (simp add: PAGE_READ_ATTEMPTS_def)
next
  assume "k < PAGE_READ_ATTEMPTS \<and> (\<forall>i<k. torn_read E file blknum checksum_version i) \<and>
       valid_read E file blknum checksum_version k p"
  then show "\<exists>lg. verbose_only lg \<and>
          prepare_page E file prev_backup_start_lsn blknum backup_mode pg strict checksum_version
            ptrack_version_num =
          Inr (if backup_mode = BACKUP_MODE_DIFF_DELTA \<and> strict \<and> exists_in_prev file \<and>
                  PageXLogRecPtrGet p \<noteq> 0 \<and> PageXLogRecPtrGet p < prev_backup_start_lsn
               then SkipCurrentPage else PageIsOk, p, lg)"
    using prepare_page_valid [OF assms, of k "file" blknum checksum_version p] by blast
next
  assume "\<forall>i<PAGE_READ_ATTEMPTS. torn_read E file blknum checksum_version i"
  then show "\<exists>pg' lg d.
          prepare_page E file prev_backup_start_lsn blknum backup_mode pg strict checksum_version
            ptrack_version_num =
          (if strict then Inl (Corruption_detected blknum (Some d))
           else Inr (PageIsCorrupted, pg', lg @ [(WARNING, Corruption_detected blknum (Some d))]))"
    using prepare_page_exhausted [OF assms] by blast
next
  assume "(\<exists>b d. prepare_page E file prev_backup_start_lsn blknum backup_mode pg strict
               checksum_version ptrack_version_num = Inl (Corruption_detected b d)) \<or>
     (\<exists>pg' lg'. prepare_page E file prev_backup_start_lsn blknum backup_mode pg strict
               checksum_version ptrack_version_num = Inr (PageIsCorrupted, pg', lg'))"
  then show "\<forall>i<PAGE_READ_ATTEMPTS. failed_read E file blknum checksum_version i"
    using prepare_page_corruption_only_after_all_attempts [OF assms] by blast
qed

theorem torn_read_resilience_witness:
  "\<exists>lg. verbose_only lg \<and>
     prepare_page (quiet_env\<lparr>fio_pread := \<lambda>off i. if i < 5 then Pread_bytes torn_page
                                                else Pread_bytes (page_with_lsn 1)\<rparr>)
       plain_file 0 0 BACKUP_MODE_FULL [] True 0 0 = Inr (PageIsOk, page_with_lsn 1, lg)"
proof -
  let ?E = "quiet_env\<lparr>fio_pread := \<lambda>off i. if i < 5 then Pread_bytes torn_page
                                           else Pread_bytes (page_with_lsn 1)\<rparr>"
  have 1: "\<not> interrupted ?E" by (simp add: quiet_env_simps)
  have 2: "BACKUP_MODE_FULL \<noteq> BACKUP_MODE_DIFF_PTRACK \<or> (0::int) \<ge> 20" by simp
  have 3: "(5::nat) < PAGE_READ_ATTEMPTS \<and> (\<forall>i<5. torn_read ?E plain_file 0 0 i) \<and>
           valid_read ?E plain_file 0 0 5 (page_with_lsn 1)"
    by (simp add: PAGE_READ_ATTEMPTS_def torn_read_def torn_page_length class_of_torn_page
        valid_read_def length_page_with_lsn class_of_page_with_lsn)
  from torn_read_resilience [OF 1 2, of 5 plain_file 0 0 "page_with_lsn 1" 0 "[]" True] 3
  show ?thesis by simp
qed

text \<open>
  The claim as stated fails: in DELTA mode a valid page read at the first attempt is
  skipped, not returned as OK, when it is older than the parent backup; and in PTRACK mode
  with a tracker older than 2.0 the block is not read at all, and the state is that of the
  tracker (here: truncated) whatever a read would have returned.
\<close>

theorem torn_read_resilience_counterexample:
  "valid_read (quiet_env\<lparr>fio_pread := \<lambda>off i. Pread_bytes (page_with_lsn 9)\<rparr>)
      plain_file 0 0 0 (page_with_lsn 9) \<and>
   prepare_page (quiet_env\<lparr>fio_pread := \<lambda>off i. Pread_bytes (page_with_lsn 9)\<rparr>)
      plain_file 64 0 BACKUP_MODE_DIFF_DELTA [] True 0 0 =
     Inr (SkipCurrentPage, page_with_lsn 9, [(VERBOSE, Msg_block ''Skipping blknum'' 0)]) \<and>
   prepare_page (quiet_env\<lparr>fio_pread := \<lambda>off i. Pread_bytes (page_with_lsn 9)\<rparr>)
      plain_file 64 0 BACKUP_MODE_DIFF_PTRACK [] True 0 15 = Inr (PageIsTruncated, [], [])"
proof -
  let ?E = "quiet_env\<lparr>fio_pread := \<lambda>off i. Pread_bytes (page_with_lsn 9)\<rparr>"
  have v: "valid_read ?E plain_file 0 0 0 (page_with_lsn 9)"
    by (simp add: valid_read_def length_page_with_lsn class_of_page_with_lsn)
  have i: "\<not> interrupted ?E" by (simp add: quiet_env_simps)
  have m: "BACKUP_MODE_DIFF_DELTA \<noteq> BACKUP_MODE_DIFF_PTRACK \<or> (0::int) \<ge> 20" by simp
  from prepare_page_first_read_valid [OF i m v, of 64 "[]" True]
  have r: "prepare_page ?E plain_file 64 0 BACKUP_MODE_DIFF_DELTA [] True 0 0 =
             Inr (SkipCurrentPage, page_with_lsn 9, [(VERBOSE, Msg_block ''Skipping blknum'' 0)])"
    by (simp add: page_with_lsn_lsn plain_file_def)
  have t: "prepare_page ?E plain_file 64 0 BACKUP_MODE_DIFF_PTRACK [] True 0 15 =
             Inr (PageIsTruncated, [], [])"
    by (simp add: prepare_page_def prepare_page_ptrack_def quiet_env_simps)
  from v r t show ?thesis by simp
qed

section \<open>Frames and the backup of one file\<close>

lemma written_simps [simp]:
  "written [] = []"
  "written (tr @ tr') = written tr @ written tr'"
  "written [Ev_fwrite bs] = [bs]"
  by (simp_all add: written_def)

lemma header_block_header_bytes [simp]: "header_block (header_bytes b c @ xs) = b"
  by (simp add: header_block_def header_bytes_def get_put_u32)

lemma header_compressed_size_header_bytes:
  "- (2 ^ 31) \<le> c \<Longrightarrow> c < 2 ^ 31 \<Longrightarrow> header_compressed_size (header_bytes b c @ xs) = c"
  by (simp add: header_compressed_size_def header_bytes_def get_put_u32_4 sint_cs)

lemma length_header_bytes [simp]: "length (header_bytes b c) = 8"
  by (simp add: header_bytes_def put_u32_def)

lemma length_buf_bytes [simp]: "length (buf_bytes buf n) = n"
  by (simp add: buf_bytes_def)

lemma buf_bytes_id: "length buf = n \<Longrightarrow> buf_bytes buf n = buf"
  by (auto simp add: buf_bytes_def intro: nth_equalityI)

lemma MAXALIGN_ge: "0 \<le> c \<Longrightarrow> c < 2 ^ 32 \<Longrightarrow> nat c \<le> MAXALIGN c"
  by (simp add: MAXALIGN_nat)

lemma compress_and_backup_page_frame_lemma:
  assumes "\<not> io_fails E Op_fwrite"
    and dc: "do_compress E (buf_bytes pg BLCKSZ) calg clevel = (c, compressed_page, errormsg)"
  shows "\<exists>file' wb lg.
           compress_and_backup_page E file blknum pg calg clevel = Inr (file', [Ev_fwrite wb], lg) \<and>
           crc file' = COMP_FILE_CRC32 E True (crc file) wb \<and>
           write_size file' = write_size file + int (length wb) \<and>
           header_block wb = blknum \<and>
           (if 0 < c \<and> c < int BLCKSZ
            then header_compressed_size wb = c \<and> length wb = 8 + MAXALIGN c \<and>
                 take (nat c) (drop 8 wb) = buf_bytes compressed_page (nat c)
            else header_compressed_size wb = int BLCKSZ \<and> length wb = 8 + BLCKSZ \<and>
                 drop 8 wb = buf_bytes pg BLCKSZ)"
proof (cases "0 < c \<and> c < int BLCKSZ")
  case True
  then have c32: "0 \<le> c" "c < 2 ^ 32" "- (2 ^ 31) \<le> c" "c < 2 ^ 31"
    by (simp_all add: BLCKSZ_def)
  let ?wb = "header_bytes blknum c @ buf_bytes compressed_page (nat c)
                 @ map (uninit E) [8 + nat c ..< 8 + MAXALIGN c]"
  have fb: "frame_buffer E blknum pg c compressed_page = ?wb"
    using True by (simp add: frame_buffer_def)
  have len: "length ?wb = 8 + MAXALIGN c"
    using MAXALIGN_ge [OF c32(1,2)] by simp
  have "\<exists>file' lg. compress_and_backup_page E file blknum pg calg clevel = Inr (file', [Ev_fwrite ?wb], lg) \<and>
           crc file' = COMP_FILE_CRC32 E True (crc file) ?wb \<and>
           write_size file' = write_size file + int (length ?wb)"
    using assms fb by (simp add: compress_and_backup_page_def Let_def)
  then obtain file' lg where
    r: "compress_and_backup_page E file blknum pg calg clevel = Inr (file', [Ev_fwrite ?wb], lg)"
      "crc file' = COMP_FILE_CRC32 E True (crc file) ?wb"
      "write_size file' = write_size file + int (length ?wb)"
    by blast
  have hb: "header_block ?wb = blknum" by simp
  have hc: "header_compressed_size ?wb = c"
    using c32 by (simp add: header_compressed_size_header_bytes)
  have pl: "take (nat c) (drop 8 ?wb) = buf_bytes compressed_page (nat c)" by simp
  show ?thesis
    apply (rule exI [of _ file'], rule exI [of _ ?wb], rule exI [of _ lg])
    using r hb hc pl len True by simp
next
  case False
  let ?wb = "header_bytes blknum (int BLCKSZ) @ buf_bytes pg BLCKSZ"
  have fb: "frame_buffer E blknum pg c compressed_page = ?wb"
    using False by (auto simp add: frame_buffer_def)
  have "\<exists>file' lg. compress_and_backup_page E file blknum pg calg clevel = Inr (file', [Ev_fwrite ?wb], lg) \<and>
           crc file' = COMP_FILE_CRC32 E True (crc file) ?wb \<and>
           write_size file' = write_size file + int (length ?wb)"
    using assms fb by (simp add: compress_and_backup_page_def Let_def)
  then obtain file' lg where
    r: "compress_and_backup_page E file blknum pg calg clevel = Inr (file', [Ev_fwrite ?wb], lg)"
      "crc file' = COMP_FILE_CRC32 E True (crc file) ?wb"
      "write_size file' = write_size file + int (length ?wb)"
    by blast
  have hb: "header_block ?wb = blknum" by simp
  have hc: "header_compressed_size ?wb = int BLCKSZ"
    by (simp add: header_compressed_size_header_bytes BLCKSZ_def)
  have pl: "drop 8 ?wb = buf_bytes pg BLCKSZ" "length ?wb = 8 + BLCKSZ" by simp_all
  show ?thesis
    apply (rule exI [of _ file'], rule exI [of _ ?wb], rule exI [of _ lg])
    using r hb hc pl False by simp
qed

lemma header_block_frame_buffer [simp]: "header_block (frame_buffer E b pg c cp) = b"
  by (simp add: frame_buffer_def)

lemma compress_and_backup_page_events:
  assumes "compress_and_backup_page E file blknum pg calg clevel = Inr (file', evs, lg)"
  shows "(\<exists>wb. evs = [Ev_fwrite wb] \<and> header_block wb = blknum) \<and>
         pagemap_bitmap file' = pagemap_bitmap file \<and>
         pagemap_bitmapsize file' = pagemap_bitmapsize file"
proof -
  obtain c cp em where dc: "do_compress E (buf_bytes pg BLCKSZ) calg clevel = (c, cp, em)"
    by (cases "do_compress E (buf_bytes pg BLCKSZ) calg clevel") auto
  show ?thesis
  proof (cases "io_fails E Op_fwrite")
    case True
    with assms dc show ?thesis by (simp add: compress_and_backup_page_def Let_def)
  next
    case False
    with assms dc have "evs = [Ev_fwrite (frame_buffer E blknum pg c cp)]"
      and "pagemap_bitmap file' = pagemap_bitmap file"
      and "pagemap_bitmapsize file' = pagemap_bitmapsize file"
      by (auto simp add: compress_and_backup_page_def Let_def)
    then show ?thesis by simp
  qed
qed

lemma word_less_succ: "(b :: 32 word) < n \<Longrightarrow> b < b + 1"
  by unat_arith

lemma backup_loop_sorted:
  assumes "backup_loop E prev mode calg clevel cv pv nblocks upm file blknum iter pg tr lg
             = Inr (file', tr', lg')"
    and "sorted_wrt (<) (map header_block (written tr))"
    and "\<forall>w \<in> set (written tr). header_block w < blknum"
    and "upm \<longrightarrow>
           (\<forall>b i'. datapagemap_next (the (pagemap_bitmap file)) (pagemap_bitmapsize file) iter
                     = Some (b, i') \<longrightarrow> blknum < b)"
  shows "sorted_wrt (<) (map header_block (written tr'))"
  using assms
proof (induction E prev mode calg clevel cv pv nblocks upm "file" blknum iter pg tr lg
       rule: backup_loop.induct)
  case (1 E prev mode calg clevel cv pv nblocks upm f blknum iter pg tr lg)
  note run = "1.prems"(1) and srt = "1.prems"(2) and below = "1.prems"(3) and itr = "1.prems"(4)
  show ?case
  proof (cases "blknum < nblocks")
    case False
    with run have "tr' = tr" by (subst (asm) backup_loop.simps) simp
    with srt show ?thesis by simp
  next
    case inside: True
    show ?thesis
    proof (cases "prepare_page E f prev blknum mode pg True cv pv")
      case (Inl e)
      with inside run show ?thesis by (subst (asm) backup_loop.simps) simp
    next
      case (Inr r)
      then obtain st pg1 lg1 where pp: "prepare_page E f prev blknum mode pg True cv pv = Inr (st, pg1, lg1)"
        by (cases r) auto
      show ?thesis
      proof (cases "st = PageIsTruncated")
        case True
        with inside pp run have "tr' = tr" by (subst (asm) backup_loop.simps) simp
        with srt show ?thesis by simp
      next
        case nt: False
        let ?step = "if st = SkipCurrentPage then Inr (f, [], [])
                      else if st = PageIsOk then compress_and_backup_page E f blknum pg1 calg clevel
                      else Inr (f, [], [])"
        show ?thesis
        proof (cases ?step)
          case (Inl e)
          with inside pp nt run show ?thesis by (subst (asm) backup_loop.simps) simp
        next
          case (Inr r2)
          then obtain f1 evs lg2 where st: "?step = Inr (f1, evs, lg2)" by (cases r2) auto
          have evs: "evs = [] \<or> (\<exists>wb. evs = [Ev_fwrite wb] \<and> header_block wb = blknum)"
            and pm: "pagemap_bitmap f1 = pagemap_bitmap f" "pagemap_bitmapsize f1 = pagemap_bitmapsize f"
            using st compress_and_backup_page_events [of E f blknum pg1 calg clevel f1 evs lg2]
            by (auto split: if_splits)
          let ?f2 = "f1\<lparr>read_size := read_size f1 + int BLCKSZ\<rparr>"
          have srt': "sorted_wrt (<) (map header_block (written (tr @ evs)))"
            using srt below evs by (auto simp add: sorted_wrt_append)
          have below': "blknum < b' \<Longrightarrow> \<forall>w \<in> set (written (tr @ evs)). header_block w < b'" for b'
            using below evs by auto
          show ?thesis
          proof (cases upm)
            case True
            show ?thesis
            proof (cases "datapagemap_next (the (pagemap_bitmap ?f2)) (pagemap_bitmapsize ?f2) iter")
              case None
              with inside pp nt st True run have "tr' = tr @ evs"
                by (subst (asm) backup_loop.simps) simp
              with srt' show ?thesis by simp
            next
              case (Some bi)
              then obtain b' it' where nx: "datapagemap_next (the (pagemap_bitmap ?f2)) (pagemap_bitmapsize ?f2) iter = Some (b', it')"
                by (cases bi) auto
              with inside pp nt st True run have rec:
                "backup_loop E prev mode calg clevel cv pv nblocks upm ?f2 b' it' pg1
                   (tr @ evs) (lg @ lg1 @ lg2) = Inr (file', tr', lg')"
                by (subst (asm) backup_loop.simps) simp
              from nx pm itr True have lt: "blknum < b'" by simp
              from nx have "it' = unat b' + 1"
                using datapagemap_next_Some by blast
              then have itr': "upm \<longrightarrow>
                 (\<forall>b i'. datapagemap_next (the (pagemap_bitmap ?f2)) (pagemap_bitmapsize ?f2) it'
                     = Some (b, i') \<longrightarrow> b' < b)"
                using datapagemap_next_Some [of "the (pagemap_bitmap ?f2)" "pagemap_bitmapsize ?f2" it']
                by (auto simp add: word_less_nat_alt)
              from "1.IH"(1) [OF inside pp refl refl nt st refl refl refl True nx refl rec srt' below' [OF lt] itr']
              show ?thesis .
            qed
          next
            case False
            with inside pp nt st run have rec:
              "backup_loop E prev mode calg clevel cv pv nblocks upm ?f2 (blknum + 1) iter pg1
                 (tr @ evs) (lg @ lg1 @ lg2) = Inr (file', tr', lg')"
              by (subst (asm) backup_loop.simps) simp
            from inside have lt: "blknum < blknum + 1" by (rule word_less_succ)
            from False have itr': "upm \<longrightarrow>
                 (\<forall>b i'. datapagemap_next (the (pagemap_bitmap ?f2)) (pagemap_bitmapsize ?f2) iter
                     = Some (b, i') \<longrightarrow> blknum + 1 < b)" by simp
            from "1.IH"(2) [OF inside pp refl refl nt st refl refl refl False rec srt' below' [OF lt] itr']
            show ?thesis .
          qed
        qed
      qed
    qed
  qed
qed

text \<open>
  C6. The frame \<^const>\<open>compress_and_backup_page\<close> emits for block \<open>b\<close> is one buffer:
  when the compressor returns \<open>c\<close> with \<open>0 < c < BLCKSZ\<close>, the header \<open>{b, c}\<close> and
  \<open>MAXALIGN(c)\<close> payload bytes that begin with the \<open>c\<close> compressed bytes; otherwise the
  header \<open>{b, BLCKSZ}\<close> and the \<open>BLCKSZ\<close> bytes of the page. The rolling checksum of the
  file is updated over exactly that buffer, and \<^verbatim>\<open>write_size\<close> grows by its length.
\<close>

theorem compress_and_backup_page_frame:
  assumes "\<not> io_fails E Op_fwrite"
    and "do_compress E (buf_bytes pg BLCKSZ) calg clevel = (c, compressed_page, errormsg)"
  shows "\<exists>file' wb lg.
           compress_and_backup_page E file blknum pg calg clevel = Inr (file', [Ev_fwrite wb], lg) \<and>
           crc file' = COMP_FILE_CRC32 E True (crc file) wb \<and>
           write_size file' = write_size file + int (length wb) \<and>
           header_block wb = blknum \<and>
           (if 0 < c \<and> c < int BLCKSZ
            then header_compressed_size wb = c \<and> length wb = 8 + MAXALIGN c \<and>
                 take (nat c) (drop 8 wb) = buf_bytes compressed_page (nat c)
            else header_compressed_size wb = int BLCKSZ \<and> length wb = 8 + BLCKSZ \<and>
                 drop 8 wb = buf_bytes pg BLCKSZ)"
  using assms by (rule compress_and_backup_page_frame_lemma)

theorem compress_and_backup_page_frame_witness:
  "\<exists>file' wb lg.
     compress_and_backup_page (quiet_env\<lparr>pglz_compress := \<lambda>src. (3, [1, 2, 3])\<rparr>) plain_file 4
       (page_with_lsn 1) PGLZ_COMPRESS 1 = Inr (file', [Ev_fwrite wb], lg) \<and>
     crc file' = crc plain_file + 16 \<and>
     header_block wb = 4 \<and> header_compressed_size wb = 3 \<and> length wb = 16 \<and>
     take 3 (drop 8 wb) = [1, 2, 3]"
proof -
  let ?E = "quiet_env\<lparr>pglz_compress := \<lambda>src. (3, [1, 2, 3])\<rparr>"
  have 1: "\<not> io_fails ?E Op_fwrite" by (simp add: quiet_env_simps)
  have 2: "do_compress ?E (buf_bytes (page_with_lsn 1) BLCKSZ) PGLZ_COMPRESS 1 = (3, [1, 2, 3], None)"
    by (simp add: do_compress_def)
  have 3: "MAXALIGN 3 = 8" by (simp add: MAXALIGN_def)
  have 4: "buf_bytes [1, 2, 3] 3 = [1, 2, 3 :: byte]"
    by (simp add: buf_bytes_id)
  have 5: "COMP_FILE_CRC32 quiet_env True c0 wb = c0 + word_of_nat (length wb)" for c0 wb
    by (simp add: quiet_env_def)
  from compress_and_backup_page_frame [OF 1 2, of plain_file 4] obtain file' wb lg where
    r: "compress_and_backup_page ?E plain_file 4 (page_with_lsn 1) PGLZ_COMPRESS 1 =
          Inr (file', [Ev_fwrite wb], lg)"
    and c: "crc file' = COMP_FILE_CRC32 ?E True (crc plain_file) wb"
    and h: "header_block wb = 4" "header_compressed_size wb = 3" "length wb = 16"
      "take 3 (drop 8 wb) = [1, 2, 3]"
    by (auto simp add: 3 4 BLCKSZ_def)
  from c h(3) have "crc file' = crc plain_file + 16" by (simp add: 5)
  with r h show ?thesis by blast
qed

text \<open>
  C5. In PAGE or PTRACK mode, for a file that exists in the previous backup and whose page
  map is empty but not absent, \<^const>\<open>backup_data_file\<close> returns with
  \<^verbatim>\<open>write_size = BYTES_INVALID\<close> having made no call on the source file or on the output
  file, and leaves \<^verbatim>\<open>read_size\<close> and \<^verbatim>\<open>crc\<close> as they were, in every environment.
\<close>

theorem unchanged_file_is_left_alone:
  assumes "backup_mode = BACKUP_MODE_DIFF_PAGE \<or> backup_mode = BACKUP_MODE_DIFF_PTRACK"
    and "pagemap_bitmapsize file = PageBitmapIsEmpty"
    and "exists_in_prev file"
    and "\<not> pagemap_isabsent file"
  shows "\<exists>file' lg.
           backup_data_file E file prev_backup_start_lsn backup_mode calg clevel checksum_version
             ptrack_version_num missing_ok = Inr (file', [], lg) \<and>
           write_size file' = BYTES_INVALID \<and>
           read_size file' = read_size file \<and>
           crc file' = crc file"
  using assms by (auto simp add: backup_data_file_def Let_def)

theorem unchanged_file_is_left_alone_witness:
  "\<exists>file' lg.
     backup_data_file quiet_env plain_file 0 BACKUP_MODE_DIFF_PAGE PGLZ_COMPRESS 1 0 0 False
       = Inr (file', [], lg) \<and>
     write_size file' = BYTES_INVALID \<and>
     read_size file' = read_size plain_file \<and>
     crc file' = crc plain_file"
proof -
  have 1: "BACKUP_MODE_DIFF_PAGE = BACKUP_MODE_DIFF_PAGE \<or> BACKUP_MODE_DIFF_PAGE = BACKUP_MODE_DIFF_PTRACK"
    by simp
  have 2: "pagemap_bitmapsize plain_file = PageBitmapIsEmpty"
    by (simp add: plain_file_def PageBitmapIsEmpty_def)
  have 3: "exists_in_prev plain_file" by (simp add: plain_file_def)
  have 4: "\<not> pagemap_isabsent plain_file" by (simp add: plain_file_def)
  from unchanged_file_is_left_alone [OF 1 2 3 4] show ?thesis .
qed

lemma backup_data_file_finish_written:
  "backup_data_file_finish E mode f3 tr3 lg3 = Inr (f, tr, lg) \<Longrightarrow> written tr = written tr3"
  by (auto simp add: backup_data_file_finish_def Let_def written_def split: if_splits)

lemma backup_data_file_pages_sorted:
  assumes "\<not> fio_is_remote_file E"
    and run: "backup_data_file_pages E f prev mode calg clevel cv pv nblocks tr0 lg0 = Inr (f3, tr3, lg3)"
    and "written tr0 = []"
  shows "sorted_wrt (<) (map header_block (written tr3))"
proof -
  let ?start = "if use_pagemap f then
                  (case datapagemap_next (the (pagemap_bitmap f)) (pagemap_bitmapsize f) 0 of
                     None \<Rightarrow> (0, 0) | Some (b, i) \<Rightarrow> (b, i))
                else (0 :: BlockNumber, 0 :: nat)"
  obtain b0 i0 where start: "?start = (b0, i0)" by (cases ?start) auto
  with run assms(1) have
    loop: "backup_loop E prev mode calg clevel cv pv nblocks (use_pagemap f) f b0 i0
             (map (uninit E) [0..<BLCKSZ]) tr0 lg0 = Inr (f3, tr3, lg3)"
    by (simp add: backup_data_file_pages_def)
  have itr: "use_pagemap f \<longrightarrow>
         (\<forall>b i'. datapagemap_next (the (pagemap_bitmap f)) (pagemap_bitmapsize f) i0
                   = Some (b, i') \<longrightarrow> b0 < b)"
  proof (intro impI allI)
    fix b i'
    assume u: "use_pagemap f"
      and nx: "datapagemap_next (the (pagemap_bitmap f)) (pagemap_bitmapsize f) i0 = Some (b, i')"
    show "b0 < b"
    proof (cases "datapagemap_next (the (pagemap_bitmap f)) (pagemap_bitmapsize f) 0")
      case None
      with u start have "i0 = 0" by simp
      with nx None show ?thesis by simp
    next
      case (Some bi)
      with u start have first: "datapagemap_next (the (pagemap_bitmap f)) (pagemap_bitmapsize f) 0
          = Some (b0, i0)" by (cases bi) simp
      from datapagemap_next_Some [OF first] datapagemap_next_Some [OF nx]
      show ?thesis by (simp add: word_less_nat_alt)
    qed
  qed
  from assms(3) have s0: "sorted_wrt (<) (map header_block (written tr0))"
    and b0: "\<forall>w \<in> set (written tr0). header_block w < b0" by simp_all
  from backup_loop_sorted [OF loop s0 b0 itr] show ?thesis .
qed

lemma backup_data_file_sorted:
  assumes "\<not> fio_is_remote_file E"
    and run: "backup_data_file E file prev mode calg clevel cv pv missing_ok = Inr (file', tr, lg)"
  shows "sorted_wrt (<) (map header_block (written tr))"
proof -
  let ?nblocks = "word_of_nat (file_size file div BLCKSZ) :: BlockNumber"
  let ?f2 = "file\<lparr>n_blocks := sint ?nblocks, read_size := 0, write_size := 0,
                   uncompressed_size := 0, crc := INIT_FILE_CRC32 E True\<rparr>"
  let ?lg0 = "if file_size file mod BLCKSZ \<noteq> 0 then [(WARNING, Msg ''invalid file size'')] else []"
  let ?tr0 = "[Ev_fopen_in, Ev_fopen_out, Ev_chmod]"
  let ?copy = "backup_data_file_copy E ?f2 prev mode calg clevel cv pv ?nblocks ?tr0 ?lg0"
  from run have "tr = [] \<or> tr = [Ev_fopen_in] \<or> ?copy = Inr (file', tr, lg)"
    by (simp add: backup_data_file_def Let_def split: if_splits fopen_result.splits)
  then consider "tr = []" | "tr = [Ev_fopen_in]" | "?copy = Inr (file', tr, lg)" by blast
  then show ?thesis
  proof cases
    case 1
    then show ?thesis by (simp add: written_def)
  next
    case 2
    then show ?thesis by (simp add: written_def)
  next
    case 3
    then obtain f3 tr3 lg3 where
      pages: "backup_data_file_pages E ?f2 prev mode calg clevel cv pv ?nblocks ?tr0 ?lg0
                = Inr (f3, tr3, lg3)"
      and fin: "backup_data_file_finish E mode f3 tr3 lg3 = Inr (file', tr, lg)"
      by (auto simp add: backup_data_file_copy_def split: sum.splits)
    have "written ?tr0 = []" by (simp add: written_def)
    from backup_data_file_pages_sorted [OF assms(1) pages this]
      backup_data_file_finish_written [OF fin]
    show ?thesis by simp
  qed
qed

section \<open>Restore: the steps of the loop\<close>

lemma take_header: "take 8 (header_bytes b c @ xs) = header_bytes b c"
  by simp

lemma drop_header: "drop 8 (header_bytes b c @ xs) = xs"
  by simp

lemma header_compressed_size_plain:
  "- (2 ^ 31) \<le> c \<Longrightarrow> c < 2 ^ 31 \<Longrightarrow> header_compressed_size (header_bytes b c) = c"
  using header_compressed_size_header_bytes [of c b "[]"] by simp

lemma header_block_plain: "header_block (header_bytes b c) = b"
  using header_block_header_bytes [of b c "[]"] by simp

lemma marker_size:
  "header_compressed_size (header_bytes b PageIsTruncated_marker) = PageIsTruncated_marker"
  by (simp add: header_compressed_size_plain PageIsTruncated_marker_def)

lemma marker_not_zero: "PageIsTruncated_marker \<noteq> 0"
  by (simp add: PageIsTruncated_marker_def)

lemma restore_loop_marker:
  assumes "\<not> interrupted E" and "\<not> io_fails E Op_ferror_in" and "\<not> io_fails E Op_fflush"
    and "\<not> io_fails E Op_fseek" and "\<not> io_fails E Op_ftruncate"
    and "\<not> b < blknum"
  shows "restore_loop E file v nblocks (header_bytes b PageIsTruncated_marker @ rest) blknum cur_pos
           write_len tr lg =
         Inr (write_len,
              tr @ [Ev_fflush, Ev_fseek 0, Ev_ftruncate (unat (b * word_of_nat BLCKSZ))],
              lg @ [(VERBOSE, Msg_block ''Truncate file to block'' b)])"
  using assms
  by (subst restore_loop.simps)
    (simp add: take_header header_block_plain marker_size marker_not_zero split del: if_split)

lemma restore_loop_raw:
  assumes "\<not> interrupted E" and "\<not> io_fails E Op_ferror_in"
    and "\<not> io_fails E Op_fseek" and "\<not> io_fails E Op_fwrite"
    and "\<not> b < blknum"
    and "\<not> (nblocks > 0 \<and> uint b \<ge> nblocks)"
    and "length payload = BLCKSZ"
    and "\<not> page_may_be_compressed payload (compress_alg file) v"
  shows "restore_loop E file v nblocks (header_bytes b (int BLCKSZ) @ payload @ rest) blknum cur_pos
           write_len tr lg =
         restore_loop E file v nblocks rest b (unat (b * word_of_nat BLCKSZ) + BLCKSZ)
           (write_len + BLCKSZ)
           ((if cur_pos \<noteq> unat (b * word_of_nat BLCKSZ)
             then tr @ [Ev_fseek (unat (b * word_of_nat BLCKSZ))] else tr) @ [Ev_fwrite payload])
           lg"
proof -
  have cs: "header_compressed_size (header_bytes b (int BLCKSZ)) = int BLCKSZ"
    by (simp add: header_compressed_size_plain BLCKSZ_def)
  have ma: "MAXALIGN (int BLCKSZ) = BLCKSZ" by (simp add: MAXALIGN_def BLCKSZ_def)
  have nz: "BLCKSZ \<noteq> 0" "int BLCKSZ \<noteq> PageIsTruncated_marker"
    by (simp_all add: BLCKSZ_def PageIsTruncated_marker_def)
  have nb: "(0 < nblocks \<and> nblocks \<le> uint b) = False" using assms(6) by simp
  from assms(1,2,3,4,5,7,8) show ?thesis
    by (subst restore_loop.simps)
      (simp add: take_header drop_header header_block_plain cs ma nz nb Let_def buf_bytes_id
         split del: if_split)
qed

lemma restore_loop_compressed:
  assumes "\<not> interrupted E" and "\<not> io_fails E Op_ferror_in"
    and "\<not> io_fails E Op_fseek" and "\<not> fio_is_remote_file E"
    and "\<not> b < blknum"
    and "\<not> (nblocks > 0 \<and> uint b \<ge> nblocks)"
    and "0 < c" and "c < int BLCKSZ"
    and "length payload = MAXALIGN c"
    and "do_decompress E (buf_bytes payload (nat c)) (compress_alg file) = (int BLCKSZ, dst, em)"
  shows "restore_loop E file v nblocks (header_bytes b c @ payload @ rest) blknum cur_pos
           write_len tr lg =
         restore_loop E file v nblocks rest b (unat (b * word_of_nat BLCKSZ) + BLCKSZ)
           (write_len + BLCKSZ)
           ((if cur_pos \<noteq> unat (b * word_of_nat BLCKSZ)
             then tr @ [Ev_fseek (unat (b * word_of_nat BLCKSZ))] else tr)
            @ [Ev_fwrite (buf_bytes dst BLCKSZ)])
           lg"
proof -
  from assms(7,8) have c32: "- (2 ^ 31) \<le> c" "c < 2 ^ 31" "0 \<le> c" "c < 2 ^ 32"
    by (simp_all add: BLCKSZ_def)
  have cs: "header_compressed_size (header_bytes b c) = c"
    using c32 by (simp add: header_compressed_size_plain)
  have nz: "c \<noteq> 0" "c \<noteq> PageIsTruncated_marker" "\<not> c > int BLCKSZ" "c \<noteq> int BLCKSZ" "\<not> c < 0"
    using assms(7,8) by (simp_all add: PageIsTruncated_marker_def)
  have le: "MAXALIGN c \<le> BLCKSZ"
    using assms(7,8) c32 by (simp add: MAXALIGN_nat BLCKSZ_def)
  have fw: "fio_fwrite_compressed E (buf_bytes payload (nat c)) (compress_alg file) =
              Inr [Ev_fwrite (buf_bytes dst BLCKSZ)]"
    using assms(4,10) by (simp add: fio_fwrite_compressed_def)
  have nb: "(0 < nblocks \<and> nblocks \<le> uint b) = False" using assms(6) by simp
  from assms(1,2,3,5,9) le show ?thesis
    by (subst restore_loop.simps)
      (simp add: take_header drop_header header_block_plain cs nz nb fw Let_def
         split del: if_split)
qed

lemma take_header_only: "take 8 (header_bytes b c) = header_bytes b c"
  by simp

lemma restore_loop_out_of_order:
  assumes "\<not> interrupted E" and "\<not> io_fails E Op_ferror_in"
    and "b < blknum"
    and "- (2 ^ 31) \<le> c" and "c < 2 ^ 31" and "c \<noteq> 0"
  shows "restore_loop E file v nblocks (header_bytes b c @ rest) blknum cur_pos write_len tr lg =
           Inl (Msg_block ''Backup is broken at block'' blknum)"
proof -
  have cs: "header_compressed_size (header_bytes b c) = c"
    using assms(4,5) by (simp add: header_compressed_size_plain)
  from assms(1,2,3,6) show ?thesis
    by (subst restore_loop.simps)
      (simp add: take_header header_block_plain cs split del: if_split)
qed

lemma unat_block_offset:
  "unat b * BLCKSZ < 2 ^ 32 \<Longrightarrow> unat (b * word_of_nat BLCKSZ :: 32 word) = unat b * BLCKSZ"
proof -
  assume lt: "unat b * BLCKSZ < 2 ^ 32"
  have u: "unat (word_of_nat BLCKSZ :: 32 word) = BLCKSZ"
    by (simp add: unat_of_nat BLCKSZ_def)
  from lt have "unat b * unat (word_of_nat BLCKSZ :: 32 word) < 2 ^ LENGTH(32)"
    by (simp add: u)
  then have "unat (b * word_of_nat BLCKSZ :: 32 word) = unat b * unat (word_of_nat BLCKSZ :: 32 word)"
    by (simp only: unat_mult_lem)
  with u show ?thesis by simp
qed

lemma apply_events_append: "apply_events (xs @ ys) st = apply_events ys (apply_events xs st)"
  by (simp add: apply_events_def)

lemma apply_events_truncate:
  "length (fst (apply_events (tr @ [Ev_fflush, Ev_fseek 0, Ev_ftruncate n]) st)) = n"
proof -
  obtain c p where "apply_events tr st = (c, p)" by (cases "apply_events tr st") auto
  then show ?thesis by (simp add: apply_events_append) (simp add: apply_events_def)
qed

text \<open>
  C8, as amended. When the restore loop, in whatever state, reads a frame header whose
  \<^verbatim>\<open>compressed_size\<close> is the truncation marker and whose block \<open>b\<close> is not below the
  last block read from the stream (and \<open>b \<times> BLCKSZ\<close> fits 32 bits, and no call fails), it
  flushes the output, truncates the destination to exactly \<open>b \<times> BLCKSZ\<close> bytes and
  returns: nothing that follows the header in the stream is read. So does
  \<^const>\<open>restore_data_file_internal\<close> on a stream that begins with such a header.
\<close>

theorem truncation_marker_truncates_and_stops:
  assumes "\<not> interrupted E" and "\<not> io_fails E Op_ferror_in" and "\<not> io_fails E Op_fflush"
    and "\<not> io_fails E Op_fseek" and "\<not> io_fails E Op_ftruncate"
    and "\<not> b < blknum" and "unat b * BLCKSZ < 2 ^ 32"
  shows "(\<exists>lg'. restore_loop E file backup_version nblocks
                  (header_bytes b PageIsTruncated_marker @ rest) blknum cur_pos write_len tr lg =
                Inr (write_len, tr @ [Ev_fflush, Ev_fseek 0, Ev_ftruncate (unat b * BLCKSZ)], lg')) \<and>
         length (fst (apply_events (tr @ [Ev_fflush, Ev_fseek 0, Ev_ftruncate (unat b * BLCKSZ)]) st))
           = unat b * BLCKSZ \<and>
         (\<exists>lg'. restore_data_file_internal E file backup_version nblocks
                  (header_bytes b PageIsTruncated_marker @ rest) =
                Inr (0, [Ev_fseek 0, Ev_fflush, Ev_fseek 0, Ev_ftruncate (unat b * BLCKSZ)], lg'))"
proof (intro conjI)
  show "\<exists>lg'. restore_loop E file backup_version nblocks
                  (header_bytes b PageIsTruncated_marker @ rest) blknum cur_pos write_len tr lg =
                Inr (write_len, tr @ [Ev_fflush, Ev_fseek 0, Ev_ftruncate (unat b * BLCKSZ)], lg')"
    using restore_loop_marker [OF assms(1-6)] unat_block_offset [OF assms(7)] by simp
next
  show "length (fst (apply_events (tr @ [Ev_fflush, Ev_fseek 0, Ev_ftruncate (unat b * BLCKSZ)]) st))
           = unat b * BLCKSZ"
    by (rule apply_events_truncate)
next
  have "\<not> b < 0" by simp
  from restore_loop_marker [OF assms(1-5) this] unat_block_offset [OF assms(7)] assms(4)
  show "\<exists>lg'. restore_data_file_internal E file backup_version nblocks
                  (header_bytes b PageIsTruncated_marker @ rest) =
                Inr (0, [Ev_fseek 0, Ev_fflush, Ev_fseek 0, Ev_ftruncate (unat b * BLCKSZ)], lg')"
    by (simp add: restore_data_file_internal_def)
qed

theorem truncation_marker_truncates_and_stops_witness:
  "(\<exists>lg'. restore_data_file_internal quiet_env plain_file 20025 0
            (header_bytes 5 PageIsTruncated_marker @ header_bytes 6 8192 @ replicate 8192 1) =
          Inr (0, [Ev_fseek 0, Ev_fflush, Ev_fseek 0, Ev_ftruncate 40960], lg')) \<and>
   length (fst (apply_events ([Ev_fseek 0] @ [Ev_fflush, Ev_fseek 0, Ev_ftruncate 40960])
                  (replicate 50000 7, 0))) = 40960"
proof -
  have q: "\<not> interrupted quiet_env" "\<not> io_fails quiet_env Op_ferror_in"
    "\<not> io_fails quiet_env Op_fflush" "\<not> io_fails quiet_env Op_fseek"
    "\<not> io_fails quiet_env Op_ftruncate"
    by (simp_all add: quiet_env_simps)
  have u: "unat (5 :: 32 word) * BLCKSZ < 2 ^ 32" by (simp add: BLCKSZ_def)
  have n: "\<not> (5 :: 32 word) < 0" by simp
  have h: "unat (5 :: 32 word) * BLCKSZ = 40960" by (simp add: BLCKSZ_def)
  note T = truncation_marker_truncates_and_stops [OF q n u, of plain_file 20025 0
      "header_bytes 6 8192 @ replicate 8192 1" 0 0 "[Ev_fseek 0]" "[]" "(replicate 50000 7, 0)",
      unfolded h]
  from T show ?thesis by blast
qed

text \<open>
  The claim as stated fails: a stream whose marker header names a block below the frame
  before it is refused as broken, and the destination is not truncated.
\<close>

theorem truncation_marker_counterexample:
  "restore_data_file_internal quiet_env plain_file 20025 0
     (header_bytes 7 (int BLCKSZ) @ replicate BLCKSZ 0 @ header_bytes 5 PageIsTruncated_marker @ [])
   = Inl (Msg_block ''Backup is broken at block'' 7)"
proof -
  have q: "\<not> interrupted quiet_env" "\<not> io_fails quiet_env Op_ferror_in"
    "\<not> io_fails quiet_env Op_fseek" "\<not> io_fails quiet_env Op_fwrite"
    by (simp_all add: quiet_env_simps)
  have nc: "\<not> page_may_be_compressed (replicate BLCKSZ 0) (compress_alg plain_file) 20025"
    by (simp add: page_may_be_compressed_iff)
  have first: "restore_loop quiet_env plain_file 20025 0
      (header_bytes 7 (int BLCKSZ) @ replicate BLCKSZ 0 @ header_bytes 5 PageIsTruncated_marker @ [])
      0 0 0 [Ev_fseek 0] [] =
    restore_loop quiet_env plain_file 20025 0 (header_bytes 5 PageIsTruncated_marker @ []) 7
      (unat (7 * word_of_nat BLCKSZ :: 32 word) + BLCKSZ) (0 + BLCKSZ)
      ((if 0 \<noteq> unat (7 * word_of_nat BLCKSZ :: 32 word)
        then [Ev_fseek 0] @ [Ev_fseek (unat (7 * word_of_nat BLCKSZ :: 32 word))] else [Ev_fseek 0])
       @ [Ev_fwrite (replicate BLCKSZ 0)]) []"
    by (rule restore_loop_raw [OF q]) (simp_all add: nc)
  have second: "restore_loop quiet_env plain_file 20025 0 (header_bytes 5 PageIsTruncated_marker @ []) 7
      cp wl tr [] = Inl (Msg_block ''Backup is broken at block'' 7)" for cp wl tr
    by (rule restore_loop_out_of_order [OF q(1,2)]) (simp_all add: PageIsTruncated_marker_def)
  show ?thesis
    by (simp only: restore_data_file_internal_def q if_False first second sum.case)
qed

section \<open>Validation: the rolling checksum\<close>

lemma take_drop_8: "COMP_FILE_CRC32 E u (COMP_FILE_CRC32 E u c (take 8 inp)) (take n (drop 8 inp)) = 
   COMP_FILE_CRC32 E u c (take (8 + n) inp)" if "rolling_crc E u"
proof -
  have "take 8 inp @ take n (drop 8 inp) = take (8 + n) inp"
    by (simp add: take_add)
  with that show ?thesis by (simp add: rolling_crc_def)
qed

lemma check_pages_loop_eof:
  assumes "\<not> interrupted E" and "\<not> io_fails E Op_ferror_in"
  shows "check_pages_loop E file stop_lsn cv v u [] crc0 iv lg = Inr (Pages_done iv crc0 lg)"
  using assms by (subst check_pages_loop.simps) simp


lemma check_pages_loop_crc:
  assumes "rolling_crc E u"
    and "check_pages_loop E file stop_lsn cv v u inp crc0 iv lg = Inr (Pages_done valid c lg')"
  shows "c = COMP_FILE_CRC32 E u crc0 inp"
  using assms(2)
proof (induction "length inp" arbitrary: inp crc0 iv lg rule: less_induct)
  case less
  note roll = assms(1)
  note run = less.prems
  have c0: "COMP_FILE_CRC32 E u x [] = x" for x using roll by (simp add: rolling_crc_def)
  have cc: "COMP_FILE_CRC32 E u (COMP_FILE_CRC32 E u x a) b = COMP_FILE_CRC32 E u x (a @ b)" for x a b
    using roll by (simp add: rolling_crc_def)
  define h where "h = take 8 inp"
  define r8 where "r8 = drop 8 inp"
  define cs where "cs = header_compressed_size h"
  define n where "n = MAXALIGN cs"
  define d where "d = take n r8"
  define r where "r = drop n r8"
  define crc1 where "crc1 = COMP_FILE_CRC32 E u crc0 h"
  define crc2 where "crc2 = COMP_FILE_CRC32 E u crc1 d"
  define blk where "blk = absolute_block file (header_block h)"
  note folds = d_def [unfolded n_def cs_def] r_def [unfolded n_def cs_def]
  have body: "(if interrupted E then Inl (Msg ''Interrupted during data file validation'')
      else if io_fails E Op_ferror_in then Inl (Msg_block ''Cannot read header of block'' 0)
      else if length h \<noteq> 8 then
        (if length h = 0 then Inr (Pages_done iv crc0 lg)
         else Inr (Pages_false (lg @ [(WARNING, Msg_block ''Odd size page found at block'' 0)])))
      else
        (if header_block h = 0 \<and> cs = 0 then
           check_pages_loop E file stop_lsn cv v u r8 crc1 iv (lg @ [(VERBOSE, Msg ''Skip empty block'')])
         else if header_block h < 0 then
           Inr (Pages_false (lg @ [(WARNING, Msg_block ''Backup is broken at block'' 0)]))
         else if cs = PageIsTruncated_marker then
           check_pages_loop E file stop_lsn cv v u r8 crc1 iv
             (lg @ [(LOG, Msg_block ''Block is truncated'' (header_block h))])
         else if length d > BLCKSZ then Inl (Msg ''read past the page buffer'')
         else if length d \<noteq> n then
           Inr (Pages_false (lg @ [(WARNING, Msg_block ''Cannot read block'' (header_block h))]))
         else
           (if cs \<noteq> int BLCKSZ \<or> page_may_be_compressed d (compress_alg file) v
            then
              (if cs < 0 then Inl (Msg ''read past the page buffer'')
               else
                 (case do_decompress E (buf_bytes d (nat cs)) (compress_alg file) of
                    (uncompressed_len, dst, errormsg) \<Rightarrow>
                      (let lg1 =
                             (if uncompressed_len < 0 \<and> errormsg \<noteq> None
                              then lg @ [(WARNING, Msg_block ''An error occured during decompressing block'' (header_block h))]
                              else lg)
                       in
                       if uncompressed_len \<noteq> int BLCKSZ then
                         (if cs = int BLCKSZ then
                            check_pages_loop E file stop_lsn cv v u r crc2 False lg1
                          else Inr (Pages_false
                                      (lg1 @ [(WARNING, Msg ''Page uncompressed to != BLCKSZ'')])))
                       else
                         (case validate_one_page (pg_checksum_page E) (Some (buf_bytes dst BLCKSZ))
                                 blk stop_lsn 0 cv of
                            (rc, page_lsn) \<Rightarrow>
                              check_pages_loop E file stop_lsn cv v u r crc2
                                (if rc = PAGE_HEADER_IS_INVALID \<or> rc = PAGE_CHECKSUM_MISMATCH
                                 then False else iv)
                                (lg1 @ page_verdict_log rc (header_block h))))))
            else
              (case validate_one_page (pg_checksum_page E) (Some (buf_bytes d BLCKSZ))
                      blk stop_lsn 0 cv of
                 (rc, page_lsn) \<Rightarrow>
                   check_pages_loop E file stop_lsn cv v u r crc2
                     (if rc = PAGE_HEADER_IS_INVALID \<or> rc = PAGE_CHECKSUM_MISMATCH
                      then False else iv)
                     (lg @ page_verdict_log rc (header_block h))))))
      = Inr (Pages_done valid c lg')"
    using run
    apply (subst (asm) check_pages_loop.simps)
    apply (unfold Let_def)
    apply (fold h_def r8_def)
    apply (fold cs_def)
    apply (fold n_def)
    apply (fold d_def r_def)
    apply (fold crc1_def)
    apply (fold crc2_def)
    apply (fold blk_def)
    apply assumption
    done
  have split1: "h @ r8 = inp" by (simp add: h_def r8_def)
  have split2: "d @ r = r8" by (simp add: d_def r_def)
  have skip: "c = COMP_FILE_CRC32 E u crc0 inp"
    if "check_pages_loop E file stop_lsn cv v u r8 crc1 iv' lg1 = Inr (Pages_done valid c lg')"
      and "length h = 8" for iv' lg1
  proof -
    from that(2) have "length r8 < length inp" by (simp add: h_def r8_def)
    from less.hyps [OF this that(1)] have "c = COMP_FILE_CRC32 E u crc1 r8" .
    then have "c = COMP_FILE_CRC32 E u crc0 (h @ r8)" by (simp only: crc1_def cc)
    then show ?thesis by (simp only: split1)
  qed
  have page: "c = COMP_FILE_CRC32 E u crc0 inp"
    if "check_pages_loop E file stop_lsn cv v u r crc2 iv' lg1 = Inr (Pages_done valid c lg')"
      and "length h = 8" for iv' lg1
  proof -
    from that(2) have "length r < length inp" by (simp add: h_def r8_def r_def)
    from less.hyps [OF this that(1)] have "c = COMP_FILE_CRC32 E u crc2 r" .
    then have "c = COMP_FILE_CRC32 E u crc0 (h @ d @ r)" by (simp only: crc2_def crc1_def cc append_assoc)
    then show ?thesis by (simp only: split1 split2)
  qed
  show ?case
  proof (cases "interrupted E \<or> io_fails E Op_ferror_in")
    case True
    with body show ?thesis by (auto split: if_splits)
  next
    case False
    then have i: "interrupted E = False" "io_fails E Op_ferror_in = False" by simp_all
    show ?thesis
    proof (cases "length h = 8")
      case False
      with body i have "length h = 0 \<and> c = crc0" by (simp split: if_splits)
      then have "inp = [] \<and> c = crc0" by (cases inp) (simp_all add: h_def)
      then show ?thesis by (simp add: c0)
    next
      case len8: True
      note skip8 = skip [OF _ len8] and page8 = page [OF _ len8]
      have nl: "(header_block h < 0) = False" by simp
      show ?thesis
      proof (cases "header_block h = 0 \<and> cs = 0")
        case True
        then have "(header_block h = 0 \<and> cs = 0) = True" by simp
        with body have
          "check_pages_loop E file stop_lsn cv v u r8 crc1 iv
             (lg @ [(VERBOSE, Msg ''Skip empty block'')]) = Inr (Pages_done valid c lg')"
          by (simp only: i len8 if_True if_False simp_thms)
        then show ?thesis by (rule skip8)
      next
        case False
        then have e: "(header_block h = 0 \<and> cs = 0) = False" by simp
        show ?thesis
        proof (cases "cs = PageIsTruncated_marker")
          case True
          then have "(cs = PageIsTruncated_marker) = True" by simp
          with body have
            "check_pages_loop E file stop_lsn cv v u r8 crc1 iv
               (lg @ [(LOG, Msg_block ''Block is truncated'' (header_block h))])
               = Inr (Pages_done valid c lg')"
            by (simp only: i len8 e nl if_True if_False simp_thms)
          then show ?thesis by (rule skip8)
        next
          case False
          then have nm: "(cs = PageIsTruncated_marker) = False" by simp
          show ?thesis
          proof (cases "BLCKSZ < length d")
            case True
            then have "(BLCKSZ < length d) = True" by simp
            with body have "(Inl (Msg ''read past the page buffer'') :: msg + pages_outcome)
                  = Inr (Pages_done valid c lg')"
              by (simp only: i len8 e nl nm if_True if_False simp_thms)
            then show ?thesis by simp
          next
            case False
            then have l1: "(BLCKSZ < length d) = False" by simp
            show ?thesis
            proof (cases "length d = n")
              case False
              then have "(length d = n) = False" by simp
              with body have
                "(Inr (Pages_false (lg @ [(WARNING, Msg_block ''Cannot read block'' (header_block h))]))
                    :: msg + pages_outcome) = Inr (Pages_done valid c lg')"
                by (simp only: i len8 e nl nm l1 if_True if_False simp_thms)
              then show ?thesis by simp
            next
              case True
              then have l2: "(length d = n) = True" by simp
              note guards = i len8 e nl nm l1 l2 if_True if_False simp_thms
              show ?thesis
              proof (cases "cs \<noteq> int BLCKSZ \<or> page_may_be_compressed d (compress_alg file) v")
                case False
                then have raw: "(cs \<noteq> int BLCKSZ \<or> page_may_be_compressed d (compress_alg file) v) = False"
                  by simp
                obtain rc l where va: "validate_one_page (pg_checksum_page E)
                    (Some (buf_bytes d BLCKSZ)) blk stop_lsn 0 cv = (rc, l)"
                  by (cases "validate_one_page (pg_checksum_page E)
                    (Some (buf_bytes d BLCKSZ)) blk stop_lsn 0 cv")
                from body have
                  "check_pages_loop E file stop_lsn cv v u r crc2
                     (if rc = PAGE_HEADER_IS_INVALID \<or> rc = PAGE_CHECKSUM_MISMATCH then False else iv)
                     (lg @ page_verdict_log rc (header_block h)) = Inr (Pages_done valid c lg')"
                  by (simp only: guards raw va prod.case)
                then show ?thesis by (rule page8)
              next
                case True
                then have comp: "(cs \<noteq> int BLCKSZ \<or> page_may_be_compressed d (compress_alg file) v) = True"
                  by simp
                show ?thesis
                proof (cases "cs < 0")
                  case True
                  then have "(cs < 0) = True" by simp
                  with body have "(Inl (Msg ''read past the page buffer'') :: msg + pages_outcome)
                      = Inr (Pages_done valid c lg')"
                    by (simp only: guards comp)
                  then show ?thesis by simp
                next
                  case False
                  then have nn: "(cs < 0) = False" by simp
                  obtain ul dst em where dd: "do_decompress E (buf_bytes d (nat cs)) (compress_alg file)
                      = (ul, dst, em)"
                    by (cases "do_decompress E (buf_bytes d (nat cs)) (compress_alg file)") auto
                  define lg1 where "lg1 = (if ul < 0 \<and> em \<noteq> None
                              then lg @ [(WARNING, Msg_block ''An error occured during decompressing block'' (header_block h))]
                              else lg)"
                  from body have body2: "(if ul \<noteq> int BLCKSZ then
                         (if cs = int BLCKSZ then
                            check_pages_loop E file stop_lsn cv v u r crc2 False lg1
                          else Inr (Pages_false
                                      (lg1 @ [(WARNING, Msg ''Page uncompressed to != BLCKSZ'')])))
                       else
                         (case validate_one_page (pg_checksum_page E) (Some (buf_bytes dst BLCKSZ))
                                 blk stop_lsn 0 cv of
                            (rc, page_lsn) \<Rightarrow>
                              check_pages_loop E file stop_lsn cv v u r crc2
                                (if rc = PAGE_HEADER_IS_INVALID \<or> rc = PAGE_CHECKSUM_MISMATCH
                                 then False else iv)
                                (lg1 @ page_verdict_log rc (header_block h))))
                       = Inr (Pages_done valid c lg')"
                    by (simp only: guards comp nn dd prod.case Let_def lg1_def)
                  show ?thesis
                  proof (cases "ul = int BLCKSZ")
                    case False
                    then have ne: "(ul = int BLCKSZ) = False" by simp
                    show ?thesis
                    proof (cases "cs = int BLCKSZ")
                      case True
                      then have "(cs = int BLCKSZ) = True" by simp
                      with body2 have
                        "check_pages_loop E file stop_lsn cv v u r crc2 False lg1
                           = Inr (Pages_done valid c lg')"
                        by (simp only: ne if_True if_False simp_thms)
                      then show ?thesis by (rule page8)
                    next
                      case False
                      then have "(cs = int BLCKSZ) = False" by simp
                      with body2 have
                        "(Inr (Pages_false (lg1 @ [(WARNING, Msg ''Page uncompressed to != BLCKSZ'')]))
                           :: msg + pages_outcome) = Inr (Pages_done valid c lg')"
                        by (simp only: ne if_True if_False simp_thms)
                      then show ?thesis by simp
                    qed
                  next
                    case True
                    then have ul: "(ul = int BLCKSZ) = True" by simp
                    obtain rc l where va: "validate_one_page (pg_checksum_page E)
                        (Some (buf_bytes dst BLCKSZ)) blk stop_lsn 0 cv = (rc, l)"
                      by (cases "validate_one_page (pg_checksum_page E)
                        (Some (buf_bytes dst BLCKSZ)) blk stop_lsn 0 cv")
                    from body2 have
                      "check_pages_loop E file stop_lsn cv v u r crc2
                         (if rc = PAGE_HEADER_IS_INVALID \<or> rc = PAGE_CHECKSUM_MISMATCH then False else iv)
                         (lg1 @ page_verdict_log rc (header_block h)) = Inr (Pages_done valid c lg')"
                      by (simp only: ul va prod.case if_True if_False simp_thms)
                    then show ?thesis by (rule page8)
                  qed
                qed
              qed
            qed
          qed
        qed
      qed
    qed
  qed
qed


lemma raw_frame_facts:
  "header_compressed_size (header_bytes b (int BLCKSZ)) = int BLCKSZ"
  "MAXALIGN (int BLCKSZ) = BLCKSZ"
  "BLCKSZ \<noteq> 0"
  "int BLCKSZ \<noteq> PageIsTruncated_marker"
  by (simp_all add: header_compressed_size_plain MAXALIGN_def BLCKSZ_def PageIsTruncated_marker_def)

lemma check_pages_loop_raw:
  assumes "\<not> interrupted E" and "\<not> io_fails E Op_ferror_in"
    and "length p = BLCKSZ"
    and "\<not> page_may_be_compressed p (compress_alg file) v"
    and va: "validate_one_page (pg_checksum_page E) (Some p) (absolute_block file b) stop_lsn 0 cv
               = (rc, l)"
  shows "check_pages_loop E file stop_lsn cv v u (header_bytes b (int BLCKSZ) @ p @ rest) crc0 iv lg =
         check_pages_loop E file stop_lsn cv v u rest
           (COMP_FILE_CRC32 E u (COMP_FILE_CRC32 E u crc0 (header_bytes b (int BLCKSZ))) p)
           (if rc = PAGE_HEADER_IS_INVALID \<or> rc = PAGE_CHECKSUM_MISMATCH then False else iv)
           (lg @ page_verdict_log rc b)"
  using assms(1,2,3,4)
  by (subst check_pages_loop.simps)
    (simp add: take_header drop_header header_block_plain raw_frame_facts Let_def buf_bytes_id va
       split del: if_split)

lemma check_pages_loop_probed:
  assumes "\<not> interrupted E" and "\<not> io_fails E Op_ferror_in"
    and "length p = BLCKSZ"
    and "page_may_be_compressed p (compress_alg file) v"
    and dd: "do_decompress E (buf_bytes p BLCKSZ) (compress_alg file) = (ul, dst, em)"
    and va: "validate_one_page (pg_checksum_page E) (Some (buf_bytes dst BLCKSZ))
               (absolute_block file b) stop_lsn 0 cv = (rc, l)"
  shows "check_pages_loop E file stop_lsn cv v u (header_bytes b (int BLCKSZ) @ p @ rest) crc0 iv lg =
         check_pages_loop E file stop_lsn cv v u rest
           (COMP_FILE_CRC32 E u (COMP_FILE_CRC32 E u crc0 (header_bytes b (int BLCKSZ))) p)
           (if ul \<noteq> int BLCKSZ \<or> rc = PAGE_HEADER_IS_INVALID \<or> rc = PAGE_CHECKSUM_MISMATCH
            then False else iv)
           ((if ul < 0 \<and> em \<noteq> None
             then lg @ [(WARNING, Msg_block ''An error occured during decompressing block'' b)]
             else lg) @ (if ul \<noteq> int BLCKSZ then [] else page_verdict_log rc b))"
proof (cases "ul = int BLCKSZ")
  case True
  with assms(1,2,3,4) show ?thesis
    by (subst check_pages_loop.simps)
      (simp add: take_header drop_header header_block_plain raw_frame_facts Let_def dd va
         split del: if_split, (auto simp add: header_block_plain)?)
next
  case False
  then have ne: "(ul = int BLCKSZ) = False" by simp
  from assms(1,2,3,4) show ?thesis
    by (subst check_pages_loop.simps)
      (simp add: take_header drop_header header_block_plain raw_frame_facts Let_def dd ne
         split del: if_split, (auto simp add: header_block_plain)?)
qed

lemma check_pages_loop_raw_frame:
  assumes "\<not> interrupted E" and "\<not> io_fails E Op_ferror_in" and "length p = BLCKSZ"
  shows "\<exists>iv' lg'.
     check_pages_loop E file stop_lsn cv v u (header_bytes b (int BLCKSZ) @ p @ rest) crc0 iv lg =
     check_pages_loop E file stop_lsn cv v u rest
       (COMP_FILE_CRC32 E u (COMP_FILE_CRC32 E u crc0 (header_bytes b (int BLCKSZ))) p) iv' lg'"
proof (cases "page_may_be_compressed p (compress_alg file) v")
  case False
  obtain rc l where "validate_one_page (pg_checksum_page E) (Some p) (absolute_block file b)
      stop_lsn 0 cv = (rc, l)"
    by (cases "validate_one_page (pg_checksum_page E) (Some p) (absolute_block file b)
      stop_lsn 0 cv")
  from check_pages_loop_raw [OF assms False this] show ?thesis by blast
next
  case True
  obtain ul dst em where dd: "do_decompress E (buf_bytes p BLCKSZ) (compress_alg file) = (ul, dst, em)"
    by (cases "do_decompress E (buf_bytes p BLCKSZ) (compress_alg file)") auto
  obtain rc l where "validate_one_page (pg_checksum_page E) (Some (buf_bytes dst BLCKSZ))
      (absolute_block file b) stop_lsn 0 cv = (rc, l)"
    by (cases "validate_one_page (pg_checksum_page E) (Some (buf_bytes dst BLCKSZ))
      (absolute_block file b) stop_lsn 0 cv")
  from check_pages_loop_probed [OF assms True dd this] show ?thesis by blast
qed

lemma check_pages_loop_raw_stream:
  assumes "\<not> interrupted E" and "\<not> io_fails E Op_ferror_in" and "rolling_crc E u"
  shows "\<forall>(b, p) \<in> set frames. length p = BLCKSZ \<Longrightarrow>
     \<exists>iv' lg'. check_pages_loop E file stop_lsn cv v u (raw_stream frames) crc0 iv lg =
        Inr (Pages_done iv' (COMP_FILE_CRC32 E u crc0 (raw_stream frames)) lg')"
proof (induction frames arbitrary: crc0 iv lg)
  case Nil
  from assms(3) have "COMP_FILE_CRC32 E u crc0 [] = crc0" by (simp add: rolling_crc_def)
  with assms(1,2) show ?case by (simp add: raw_stream_def check_pages_loop_eof)
next
  case (Cons bp frames)
  obtain b p where bp: "bp = (b, p)" by (cases bp)
  with Cons.prems have len: "length p = BLCKSZ"
    and rest: "\<forall>(b, p) \<in> set frames. length p = BLCKSZ" by simp_all
  let ?crc = "COMP_FILE_CRC32 E u (COMP_FILE_CRC32 E u crc0 (header_bytes b (int BLCKSZ))) p"
  from check_pages_loop_raw_frame [OF assms(1,2) len, of "file" stop_lsn cv v u b "raw_stream frames"
      crc0 iv lg]
  obtain iv1 lg1 where step:
    "check_pages_loop E file stop_lsn cv v u (header_bytes b (int BLCKSZ) @ p @ raw_stream frames)
       crc0 iv lg =
     check_pages_loop E file stop_lsn cv v u (raw_stream frames) ?crc iv1 lg1" by blast
  from Cons.IH [OF rest, of ?crc iv1 lg1] obtain iv' lg' where
    "check_pages_loop E file stop_lsn cv v u (raw_stream frames) ?crc iv1 lg1 =
       Inr (Pages_done iv' (COMP_FILE_CRC32 E u ?crc (raw_stream frames)) lg')" by blast
  moreover from assms(3) have
    "COMP_FILE_CRC32 E u ?crc (raw_stream frames) =
       COMP_FILE_CRC32 E u crc0 (header_bytes b (int BLCKSZ) @ p @ raw_stream frames)"
    by (simp add: rolling_crc_def)
  moreover have "raw_stream (bp # frames) = header_bytes b (int BLCKSZ) @ p @ raw_stream frames"
    by (simp add: raw_stream_def bp)
  ultimately show ?case using step by simp
qed


text \<open>
  C9. \<^const>\<open>check_file_pages\<close> computes the checksum with the crc32c polynomial exactly
  for the producer versions up to 2.0.21 and from 2.0.25 on, and with the older one for
  2.0.22 to 2.0.24. It never returns true for a stream whose checksum under that
  polynomial (the rolling checksum over all its bytes) differs from \<^verbatim>\<open>file.crc\<close>. When
  the frames have been replayed to the end of the stream, the checksum it has computed is
  the one of all the bytes of the stream; if it differs from \<^verbatim>\<open>file.crc\<close> the function
  returns false, with a warning, and else what the pages gave. And a stream of frames that
  hold their pages as they are is always replayed to its end, whatever the pages are: on
  it, with a checksum that differs, the function returns false.
\<close>

theorem check_file_pages_checksum:
  "(use_crc32c backup_version \<longleftrightarrow> backup_version \<le> 20021 \<or> backup_version \<ge> 20025) \<and>
   (\<not> use_crc32c backup_version \<longleftrightarrow> 20022 \<le> backup_version \<and> backup_version \<le> 20024) \<and>
   (rolling_crc E (use_crc32c backup_version) \<longrightarrow>
      check_file_pages E file inp stop_lsn checksum_version backup_version = Inr (True, lg) \<longrightarrow>
      FIN_FILE_CRC32 E (use_crc32c backup_version)
        (COMP_FILE_CRC32 E (use_crc32c backup_version)
           (INIT_FILE_CRC32 E (use_crc32c backup_version)) inp) = crc file) \<and>
   (rolling_crc E (use_crc32c backup_version) \<longrightarrow>
    fopen_in E = Fopen_ok \<longrightarrow>
      check_pages_loop E file stop_lsn checksum_version backup_version (use_crc32c backup_version)
        inp (INIT_FILE_CRC32 E (use_crc32c backup_version)) True
        [(VERBOSE, Msg ''Validate relation blocks for file'')] = Inr (Pages_done valid c lg') \<longrightarrow>
      c = COMP_FILE_CRC32 E (use_crc32c backup_version)
            (INIT_FILE_CRC32 E (use_crc32c backup_version)) inp \<and>
      (FIN_FILE_CRC32 E (use_crc32c backup_version) c \<noteq> crc file \<longrightarrow>
         check_file_pages E file inp stop_lsn checksum_version backup_version =
           Inr (False, lg' @ [(WARNING, Msg ''Invalid CRC of backup file'')])) \<and>
      (FIN_FILE_CRC32 E (use_crc32c backup_version) c = crc file \<longrightarrow>
         check_file_pages E file inp stop_lsn checksum_version backup_version =
           Inr (valid, lg'))) \<and>
   (\<not> interrupted E \<longrightarrow> \<not> io_fails E Op_ferror_in \<longrightarrow> fopen_in E = Fopen_ok \<longrightarrow>
    rolling_crc E (use_crc32c backup_version) \<longrightarrow>
    (\<forall>(b, p) \<in> set frames. length p = BLCKSZ) \<longrightarrow>
    FIN_FILE_CRC32 E (use_crc32c backup_version)
      (COMP_FILE_CRC32 E (use_crc32c backup_version)
         (INIT_FILE_CRC32 E (use_crc32c backup_version)) (raw_stream frames)) \<noteq> crc file \<longrightarrow>
    (\<exists>lg''. check_file_pages E file (raw_stream frames) stop_lsn checksum_version backup_version =
              Inr (False, lg'')))"
proof -
  let ?u = "use_crc32c backup_version"
  let ?lg0 = "[(VERBOSE, Msg ''Validate relation blocks for file'')]"
  let ?loop = "\<lambda>inp. check_pages_loop E file stop_lsn checksum_version backup_version ?u inp
                 (INIT_FILE_CRC32 E ?u) True ?lg0"
  have p1: "use_crc32c backup_version \<longleftrightarrow> backup_version \<le> 20021 \<or> backup_version \<ge> 20025"
    by (simp add: use_crc32c_def)
  have p2: "\<not> use_crc32c backup_version \<longleftrightarrow> 20022 \<le> backup_version \<and> backup_version \<le> 20024"
    by (auto simp add: use_crc32c_def)
  have ended: "check_file_pages E file inp' stop_lsn checksum_version backup_version =
          (if FIN_FILE_CRC32 E ?u c' \<noteq> crc file
           then Inr (False, lg1 @ [(WARNING, Msg ''Invalid CRC of backup file'')])
           else Inr (iv, lg1))"
    if "fopen_in E = Fopen_ok" and "?loop inp' = Inr (Pages_done iv c' lg1)" for inp' iv c' lg1
    using that by (simp add: check_file_pages_def Let_def)
  have p3: "FIN_FILE_CRC32 E ?u (COMP_FILE_CRC32 E ?u (INIT_FILE_CRC32 E ?u) inp) = crc file"
    if roll: "rolling_crc E ?u"
      and res: "check_file_pages E file inp stop_lsn checksum_version backup_version = Inr (True, lg)"
  proof -
    from res have ok: "fopen_in E = Fopen_ok"
      by (cases "fopen_in E") (simp_all add: check_file_pages_def Let_def)
    from res ok obtain c1 lg1 where
      run: "?loop inp = Inr (Pages_done True c1 lg1)" and eq: "FIN_FILE_CRC32 E ?u c1 = crc file"
    proof (cases "?loop inp")
      case (Inl e)
      with res ok show ?thesis by (simp add: check_file_pages_def Let_def)
    next
      case (Inr out)
      show ?thesis
      proof (cases out)
        case (Pages_false lg2)
        with Inr res ok show ?thesis by (simp add: check_file_pages_def Let_def)
      next
        case (Pages_done iv c2 lg2)
        with Inr res ok have "FIN_FILE_CRC32 E ?u c2 = crc file" "iv = True"
          by (simp_all add: check_file_pages_def Let_def split: if_splits)
        with Pages_done Inr that show ?thesis by simp
      qed
    qed
    from check_pages_loop_crc [OF roll run] eq show ?thesis by simp
  qed
  have p4: "c = COMP_FILE_CRC32 E ?u (INIT_FILE_CRC32 E ?u) inp \<and>
      (FIN_FILE_CRC32 E ?u c \<noteq> crc file \<longrightarrow>
         check_file_pages E file inp stop_lsn checksum_version backup_version =
           Inr (False, lg' @ [(WARNING, Msg ''Invalid CRC of backup file'')])) \<and>
      (FIN_FILE_CRC32 E ?u c = crc file \<longrightarrow>
         check_file_pages E file inp stop_lsn checksum_version backup_version = Inr (valid, lg'))"
    if roll: "rolling_crc E ?u" and ok: "fopen_in E = Fopen_ok"
      and run: "?loop inp = Inr (Pages_done valid c lg')"
    using check_pages_loop_crc [OF roll run] ended [OF ok run] by simp
  have p5: "\<exists>lg''. check_file_pages E file (raw_stream frames) stop_lsn checksum_version
                 backup_version = Inr (False, lg'')"
    if q: "\<not> interrupted E" "\<not> io_fails E Op_ferror_in" and ok: "fopen_in E = Fopen_ok"
      and roll: "rolling_crc E ?u"
      and len: "\<forall>(b, p) \<in> set frames. length p = BLCKSZ"
      and ne: "FIN_FILE_CRC32 E ?u
                 (COMP_FILE_CRC32 E ?u (INIT_FILE_CRC32 E ?u) (raw_stream frames)) \<noteq> crc file"
  proof -
    have "\<exists>iv' lg1. ?loop (raw_stream frames) =
        Inr (Pages_done iv' (COMP_FILE_CRC32 E ?u (INIT_FILE_CRC32 E ?u) (raw_stream frames)) lg1)"
      by (rule check_pages_loop_raw_stream [OF q roll len])
    then obtain iv' lg1 where run: "?loop (raw_stream frames) =
        Inr (Pages_done iv' (COMP_FILE_CRC32 E ?u (INIT_FILE_CRC32 E ?u) (raw_stream frames)) lg1)"
      by blast
    from ended [OF ok run] ne show ?thesis by simp
  qed
  from p1 p2 p3 p4 p5 show ?thesis by blast
qed

theorem check_file_pages_checksum_witness:
  "check_file_pages counting_env (plain_file\<lparr>crc := 16400\<rparr>)
     (raw_stream [(0, page_with_lsn 1), (1, page_with_lsn 2)]) 0 0 20025 =
     Inr (True, [(VERBOSE, Msg ''Validate relation blocks for file'')]) \<and>
   FIN_FILE_CRC32 counting_env (use_crc32c 20025)
     (COMP_FILE_CRC32 counting_env (use_crc32c 20025)
        (INIT_FILE_CRC32 counting_env (use_crc32c 20025))
        (raw_stream [(0, page_with_lsn 1), (1, page_with_lsn 2)]))
     = crc (plain_file\<lparr>crc := 16400\<rparr>) \<and>
   check_file_pages counting_env (plain_file\<lparr>crc := 16400\<rparr>)
     (raw_stream [(0, page_with_lsn 1), (1, page_with_lsn 2)]) 0 0 20023 =
     Inr (False, [(VERBOSE, Msg ''Validate relation blocks for file''),
                  (WARNING, Msg ''Invalid CRC of backup file'')]) \<and>
   use_crc32c 20025 \<and> \<not> use_crc32c 20023"
proof -
  let ?f = "plain_file\<lparr>crc := 16400\<rparr>"
  let ?s = "raw_stream [(0, page_with_lsn 1), (1, page_with_lsn 2)]"
  let ?lg0 = "[(VERBOSE, Msg ''Validate relation blocks for file'')]"
  have q: "\<not> interrupted counting_env" "\<not> io_fails counting_env Op_ferror_in"
    "fopen_in counting_env = Fopen_ok"
    by (simp_all add: counting_env_def quiet_env_def)
  have crcs: "INIT_FILE_CRC32 counting_env u = 0" "FIN_FILE_CRC32 counting_env u x = x"
    "COMP_FILE_CRC32 counting_env u x bs = x + (if u then 1 else 2) * word_of_nat (length bs)"
    for u x bs
    by (simp_all add: counting_env_def quiet_env_def)
  have roll: "rolling_crc counting_env u" for u
    by (simp add: rolling_crc_def crcs algebra_simps)
  have step: "check_pages_loop counting_env f 0 0 v u
                (header_bytes b (int BLCKSZ) @ page_with_lsn l @ rest) crc0 True lg =
              check_pages_loop counting_env f 0 0 v u rest
                (COMP_FILE_CRC32 counting_env u
                   (COMP_FILE_CRC32 counting_env u crc0 (header_bytes b (int BLCKSZ)))
                   (page_with_lsn l)) True lg" for f v u b l rest crc0 lg
  proof -
    have npc: "\<not> page_may_be_compressed (page_with_lsn l) (compress_alg f) v"
      by (simp add: page_may_be_compressed_iff page_with_lsn_sound)
    have va: "validate_one_page (pg_checksum_page counting_env) (Some (page_with_lsn l))
        (absolute_block f b) 0 0 0 = (PAGE_IS_VALID, PageXLogRecPtrGet (page_with_lsn l))"
      by (simp add: validate_one_page_Some page_with_lsn_sound)
    from check_pages_loop_raw [OF q(1,2) length_page_with_lsn npc va,
        where u = u and rest = rest and ?crc0.0 = crc0 and iv = True and lg = lg]
    show ?thesis by (simp add: page_verdict_log_def)
  qed
  have stream: "?s = header_bytes 0 (int BLCKSZ) @ page_with_lsn 1 @
                     header_bytes 1 (int BLCKSZ) @ page_with_lsn 2 @ []"
    by (simp add: raw_stream_def)
  have replay: "check_pages_loop counting_env f 0 0 v u ?s crc0 True lg =
      Inr (Pages_done True
             (COMP_FILE_CRC32 counting_env u
               (COMP_FILE_CRC32 counting_env u
                 (COMP_FILE_CRC32 counting_env u
                   (COMP_FILE_CRC32 counting_env u crc0 (header_bytes 0 (int BLCKSZ)))
                   (page_with_lsn 1))
                 (header_bytes 1 (int BLCKSZ)))
               (page_with_lsn 2)) lg)" for f v u crc0 lg
    by (simp only: stream step check_pages_loop_eof [OF q(1,2)])
  have l: "check_pages_loop counting_env f 0 0 v u ?s crc0 True lg =
      Inr (Pages_done True (crc0 + (if u then 1 else 2) * 16400) lg)" for f v u crc0 lg
    by (cases u) (simp_all add: replay crcs length_page_with_lsn BLCKSZ_def)
  have u25: "use_crc32c 20025" and u23: "\<not> use_crc32c 20023"
    by (simp_all add: use_crc32c_def)
  have t: "check_file_pages counting_env ?f ?s 0 0 20025 = Inr (True, ?lg0)"
    by (simp add: check_file_pages_def Let_def q l crcs u25)
  have a: "FIN_FILE_CRC32 counting_env (use_crc32c 20025)
     (COMP_FILE_CRC32 counting_env (use_crc32c 20025)
        (INIT_FILE_CRC32 counting_env (use_crc32c 20025)) ?s) = crc ?f"
    using check_file_pages_checksum [THEN conjunct2, THEN conjunct2, THEN conjunct1, rule_format,
        OF roll t] .
  note l23 = l [where f = ?f and v = 20023 and u = "use_crc32c 20023"
      and ?crc0.0 = "INIT_FILE_CRC32 counting_env (use_crc32c 20023)" and lg = ?lg0]
  have d: "FIN_FILE_CRC32 counting_env (use_crc32c 20023)
             (INIT_FILE_CRC32 counting_env (use_crc32c 20023) +
              (if use_crc32c 20023 then 1 else 2) * 16400) \<noteq> crc ?f"
    by (simp add: crcs u23)
  have b: "check_file_pages counting_env ?f ?s 0 0 20023 =
     Inr (False, ?lg0 @ [(WARNING, Msg ''Invalid CRC of backup file'')])"
    using check_file_pages_checksum [THEN conjunct2, THEN conjunct2, THEN conjunct2,
        THEN conjunct1, rule_format, OF roll q(3) l23, THEN conjunct2, THEN conjunct1,
        rule_format, OF d] .
  from b have b': "check_file_pages counting_env ?f ?s 0 0 20023 =
     Inr (False, [(VERBOSE, Msg ''Validate relation blocks for file''),
                  (WARNING, Msg ''Invalid CRC of backup file'')])"
    by simp
  show ?thesis
    by (intro conjI) (rule t, rule a, rule b', rule u25, rule u23)
qed


section \<open>The round trip of a backup and its restore\<close>

lemma valid_read_same:
  "segno f = segno g \<Longrightarrow> valid_read E f b cv i p = valid_read E g b cv i p"
  by (simp add: valid_read_def class_of_read_def absolute_block_def)

lemma word_of_nat_less32:
  "k < n \<Longrightarrow> n < 2 ^ 32 \<Longrightarrow> (word_of_nat k :: 32 word) < word_of_nat n"
  by (simp add: word_less_nat_alt unat_of_nat)

lemma backup_loop_past:
  "\<not> blknum < nblocks \<Longrightarrow>
     backup_loop E prev mode calg clevel cv pv nblocks upm f blknum iter pg tr lg = Inr (f, tr, lg)"
  by (subst backup_loop.simps) simp

lemma compress_and_backup_page_frame_of:
  assumes "\<not> io_fails E Op_fwrite"
  shows "\<exists>f1 lg2. compress_and_backup_page E f b p calg clevel =
            Inr (f1, [Ev_fwrite (frame_of E calg clevel b p)], lg2) \<and> same_relation f1 f"
proof -
  obtain c cp em where dc: "do_compress E (buf_bytes p BLCKSZ) calg clevel = (c, cp, em)"
    by (cases "do_compress E (buf_bytes p BLCKSZ) calg clevel") auto
  with assms show ?thesis
    by (simp add: compress_and_backup_page_def frame_of_def same_relation_def Let_def)
qed

lemma datapagemap_next_set:
  assumes "int (i div 8) < bitmapsize" and "i < 2 ^ 32" and "bit (bitmap ! (i div 8)) (i mod 8)"
  shows "datapagemap_next bitmap bitmapsize i = Some (word_of_nat i, i + 1)"
  using assms by (subst datapagemap_next.simps) simp


lemma backup_loop_all:
  assumes q: "\<not> interrupted E" "\<not> io_fails E Op_fwrite"
    and n: "n < 2 ^ 19"
    and src: "source_blocks E file cv n src"
    and mode: "mode \<noteq> BACKUP_MODE_DIFF_PTRACK \<or> pv \<ge> 20"
    and delta: "no_delta_skip mode file prev n src"
    and pm: "upm \<longrightarrow> pagemap_selects_all file n"
  shows "k < n \<Longrightarrow> same_relation f file \<Longrightarrow> (upm \<longrightarrow> iter = k + 1) \<Longrightarrow>
     \<exists>f' lg'. backup_loop E prev mode calg clevel cv pv (word_of_nat n) upm f (word_of_nat k) iter
                 pg tr lg =
        Inr (f', tr @ map (\<lambda>i. Ev_fwrite (frame_of E calg clevel (word_of_nat i) (src i))) [k..<n],
             lg')"
proof (induction "n - k" arbitrary: k f iter pg tr lg)
  case 0
  then show ?case by simp
next
  case (Suc m)
  note kn = \<open>k < n\<close> and rel = \<open>same_relation f file\<close> and it = \<open>upm \<longrightarrow> iter = k + 1\<close>
  let ?b = "word_of_nat k :: BlockNumber"
  let ?N = "word_of_nat n :: BlockNumber"
  from n have n32: "n < 2 ^ 32" by simp
  from kn n32 have lt: "?b < ?N" by (rule word_of_nat_less32)
  from src kn have "valid_read E file ?b cv 0 (src k)" by (simp add: source_blocks_def)
  with rel have vr: "valid_read E f ?b cv 0 (src k)"
    by (simp add: same_relation_def valid_read_same [of f "file"])
  have noskip: "\<not> (mode = BACKUP_MODE_DIFF_DELTA \<and> True \<and> exists_in_prev f \<and>
                   PageXLogRecPtrGet (src k) \<noteq> 0 \<and> PageXLogRecPtrGet (src k) < prev)"
    using delta kn rel by (auto simp add: no_delta_skip_def same_relation_def)
  have pp: "prepare_page E f prev ?b mode pg True cv pv = Inr (PageIsOk, src k, [])"
    using prepare_page_first_read_valid [OF q(1) mode vr, of prev pg True] noskip
    by (simp only: if_False)
  from compress_and_backup_page_frame_of [OF q(2), of f ?b "src k" calg clevel]
  obtain f1 lg2 where cb: "compress_and_backup_page E f ?b (src k) calg clevel =
      Inr (f1, [Ev_fwrite (frame_of E calg clevel ?b (src k))], lg2)"
    and rel1: "same_relation f1 file"
    using rel by (auto simp add: same_relation_def)
  let ?f2 = "f1\<lparr>read_size := read_size f1 + int BLCKSZ\<rparr>"
  let ?tr = "tr @ [Ev_fwrite (frame_of E calg clevel ?b (src k))]"
  let ?lg = "lg @ [] @ lg2"
  let ?frames = "\<lambda>k. map (\<lambda>i. Ev_fwrite (frame_of E calg clevel (word_of_nat i) (src i))) [k..<n]"
  from rel1 have rel2: "same_relation ?f2 file" by (simp add: same_relation_def)
  have step: "backup_loop E prev mode calg clevel cv pv ?N upm f ?b iter pg tr lg =
      (if upm then
         (case datapagemap_next (the (pagemap_bitmap ?f2)) (pagemap_bitmapsize ?f2) iter of
            None \<Rightarrow> Inr (?f2, ?tr, ?lg)
          | Some (blknum', iter') \<Rightarrow>
              backup_loop E prev mode calg clevel cv pv ?N upm ?f2 blknum' iter' (src k) ?tr ?lg)
       else backup_loop E prev mode calg clevel cv pv ?N upm ?f2 (?b + 1) iter (src k) ?tr ?lg)"
    by (subst backup_loop.simps) (simp add: lt pp cb Let_def split del: if_split)
  have frames: "tr @ ?frames k = ?tr @ ?frames (Suc k)"
    using kn by (simp add: upt_conv_Cons)
  have succ: "?b + 1 = word_of_nat (Suc k)" by simp
  show ?case
  proof (cases "Suc k < n")
    case more: True
    from Suc.hyps(2) have m: "m = n - Suc k" by simp
    show ?thesis
    proof (cases upm)
      case False
      from Suc.hyps(1) [OF m more rel2, of iter "src k" ?tr ?lg] False
      obtain f' lg' where
        "backup_loop E prev mode calg clevel cv pv ?N upm ?f2 (word_of_nat (Suc k)) iter (src k) ?tr ?lg
           = Inr (f', ?tr @ ?frames (Suc k), lg')" by auto
      with step False succ frames show ?thesis by simp
    next
      case True
      with pm obtain bm where bm: "pagemap_bitmap file = Some bm"
        and bits: "\<forall>i<n. int (i div 8) < pagemap_bitmapsize file \<and> bit (bm ! (i div 8)) (i mod 8)"
        by (auto simp add: pagemap_selects_all_def split: option.splits)
      from True it have iter: "iter = Suc k" by simp
      from more n32 have "Suc k < 2 ^ 32" by simp
      with bits more have nx: "datapagemap_next bm (pagemap_bitmapsize file) (Suc k)
          = Some (word_of_nat (Suc k), Suc k + 1)"
        by (simp add: datapagemap_next_set)
      from rel2 bm have pmf: "the (pagemap_bitmap ?f2) = bm"
        "pagemap_bitmapsize ?f2 = pagemap_bitmapsize file"
        by (simp_all add: same_relation_def)
      from Suc.hyps(1) [OF m more rel2, of "Suc k + 1" "src k" ?tr ?lg]
      obtain f' lg' where
        "backup_loop E prev mode calg clevel cv pv ?N upm ?f2 (word_of_nat (Suc k)) (Suc k + 1) (src k) ?tr ?lg
           = Inr (f', ?tr @ ?frames (Suc k), lg')" by auto
      with step True iter nx pmf frames show ?thesis by (simp only: if_True option.case prod.case) blast
    qed
  next
    case False
    with kn have last: "Suc k = n" by simp
    then have fr: "?frames (Suc k) = []" by simp
    show ?thesis
    proof (cases upm)
      case False
      from last succ have "?b + 1 = ?N" by simp
      then have "\<not> (?b + 1 < ?N)" by simp
      from backup_loop_past [OF this] step False frames fr show ?thesis by simp
    next
      case True
      from True it have iter: "iter = Suc k" by simp
      show ?thesis
      proof (cases "datapagemap_next (the (pagemap_bitmap ?f2)) (pagemap_bitmapsize ?f2) iter")
        case None
        with step True frames fr show ?thesis by simp
      next
        case (Some bi)
        then obtain b' it' where nx:
          "datapagemap_next (the (pagemap_bitmap ?f2)) (pagemap_bitmapsize ?f2) iter = Some (b', it')"
          by (cases bi) auto
        from datapagemap_next_Some [OF nx] iter last have "n \<le> unat b'" by simp
        with n32 have "\<not> b' < ?N" by (simp add: word_less_nat_alt unat_of_nat)
        from backup_loop_past [OF this] step True nx frames fr show ?thesis by simp
      qed
    qed
  qed
qed


lemma written_frames:
  "written (map (\<lambda>i. Ev_fwrite (g i)) xs) = map g xs"
  by (induction xs) (simp_all add: written_def)

lemma backup_data_file_finish_ok:
  assumes "\<forall>op. \<not> io_fails E op"
  shows "\<exists>f tr lg. backup_data_file_finish E mode f3 tr3 lg3 = Inr (f, tr, lg) \<and>
           written tr = written tr3"
  using assms by (simp add: backup_data_file_finish_def Let_def written_def)

lemma pagemap_selects_all_first:
  assumes "pagemap_selects_all file n" and "0 < n"
  shows "\<exists>bm. pagemap_bitmap file = Some bm \<and> 0 < pagemap_bitmapsize file \<and>
           datapagemap_next bm (pagemap_bitmapsize file) 0 = Some (0, 1)"
proof -
  from assms obtain bm where bm: "pagemap_bitmap file = Some bm"
    and bits: "int (0 div 8) < pagemap_bitmapsize file \<and> bit (bm ! (0 div 8)) (0 mod 8)"
    by (auto simp add: pagemap_selects_all_def split: option.splits)
  from bits have "datapagemap_next bm (pagemap_bitmapsize file) 0 = Some (word_of_nat 0, 0 + 1)"
    by (intro datapagemap_next_set) simp_all
  with bm bits show ?thesis by simp
qed

lemma backup_data_file_pages_all:
  assumes q: "\<not> interrupted E" "\<not> io_fails E Op_fwrite" "\<not> fio_is_remote_file E"
    and n: "n < 2 ^ 19"
    and src: "source_blocks E file cv n src"
    and mode: "mode \<noteq> BACKUP_MODE_DIFF_PTRACK \<or> pv \<ge> 20"
    and delta: "no_delta_skip mode file prev n src"
    and pm: "pagemap_isabsent file \<or> pagemap_selects_all file n"
    and rel: "same_relation f file" "pagemap_isabsent f = pagemap_isabsent file"
  shows "\<exists>f' lg'. backup_data_file_pages E f prev mode calg clevel cv pv (word_of_nat n) tr lg =
           Inr (f', tr @ map (\<lambda>i. Ev_fwrite (frame_of E calg clevel (word_of_nat i) (src i))) [0..<n],
                lg')"
proof -
  let ?start = "if use_pagemap f then
                  (case datapagemap_next (the (pagemap_bitmap f)) (pagemap_bitmapsize f) 0 of
                     None \<Rightarrow> (0, 0) | Some (b, i) \<Rightarrow> (b, i))
                else (0 :: BlockNumber, 0 :: nat)"
  obtain b0 i0 where start: "?start = (b0, i0)" by (cases ?start) auto
  with q(3) have pages: "backup_data_file_pages E f prev mode calg clevel cv pv (word_of_nat n) tr lg =
      backup_loop E prev mode calg clevel cv pv (word_of_nat n) (use_pagemap f) f b0 i0
        (map (uninit E) [0..<BLCKSZ]) tr lg"
    by (simp add: backup_data_file_pages_def)
  show ?thesis
  proof (cases "n = 0")
    case True
    then have "\<not> b0 < (word_of_nat n :: BlockNumber)" by simp
    from backup_loop_past [OF this] pages True show ?thesis by simp
  next
    case False
    then have pos: "0 < n" by simp
    have upm: "use_pagemap f \<longrightarrow> pagemap_selects_all file n"
      using pm rel by (auto simp add: use_pagemap_def)
    have first: "use_pagemap f \<Longrightarrow> ?start = (0, 1)"
    proof -
      assume u: "use_pagemap f"
      with upm have "pagemap_selects_all file n" by simp
      from pagemap_selects_all_first [OF this pos] obtain bm where
        "pagemap_bitmap file = Some bm"
        "datapagemap_next bm (pagemap_bitmapsize file) 0 = Some (0, 1)" by blast
      with rel(1) have "datapagemap_next (the (pagemap_bitmap f)) (pagemap_bitmapsize f) 0 = Some (0, 1)"
        by (simp add: same_relation_def)
      with u show ?thesis by simp
    qed
    have b0: "b0 = word_of_nat 0" and i0: "use_pagemap f \<longrightarrow> i0 = 0 + 1"
      using first start by (cases "use_pagemap f"; simp)+
    from backup_loop_all [OF q(1,2) n src mode delta upm pos rel(1) i0,
        where calg = calg and clevel = clevel and pg = "map (uninit E) [0..<BLCKSZ]"
          and tr = tr and lg = lg]
      pages b0 show ?thesis by simp
  qed
qed

lemma backup_frames_all:
  assumes q: "\<not> interrupted E" "\<forall>op. \<not> io_fails E op" "fopen_in E = Fopen_ok"
      "\<not> fio_is_remote_file E"
    and n: "n = file_size file div BLCKSZ" "n < 2 ^ 19"
    and src: "source_blocks E file cv n src"
    and mode: "mode \<noteq> BACKUP_MODE_DIFF_PTRACK \<or> pv \<ge> 20"
    and delta: "no_delta_skip mode file prev n src"
    and pm: "pagemap_isabsent file \<or> pagemap_selects_all file n"
  shows "backup_frames E file prev mode calg clevel cv pv missing_ok =
           Some (map (\<lambda>i. frame_of E calg clevel (word_of_nat i) (src i)) [0..<n])"
proof -
  let ?nblocks = "word_of_nat (file_size file div BLCKSZ) :: BlockNumber"
  let ?f1 = "file\<lparr>n_blocks := sint ?nblocks\<rparr>"
  let ?f2 = "?f1\<lparr>read_size := 0, write_size := 0, uncompressed_size := 0,
                  crc := INIT_FILE_CRC32 E True\<rparr>"
  let ?lg0 = "if file_size file mod BLCKSZ \<noteq> 0 then [(WARNING, Msg ''invalid file size'')] else []"
  let ?tr0 = "[Ev_fopen_in, Ev_fopen_out, Ev_chmod]"
  let ?frames = "map (\<lambda>i. frame_of E calg clevel (word_of_nat i) (src i)) [0..<n]"
  show ?thesis
  proof (cases "(mode = BACKUP_MODE_DIFF_PAGE \<or> mode = BACKUP_MODE_DIFF_PTRACK) \<and>
         pagemap_bitmapsize file = PageBitmapIsEmpty \<and>
         exists_in_prev file \<and> \<not> pagemap_isabsent file")
    case True
    with pm have "pagemap_selects_all file n" by simp
    with True have "n = 0"
      by (cases n) (auto simp add: pagemap_selects_all_def PageBitmapIsEmpty_def split: option.splits)
    with True show ?thesis
      by (simp add: backup_frames_def backup_data_file_def Let_def)
  next
    case False
    have rel: "same_relation ?f2 file" "pagemap_isabsent ?f2 = pagemap_isabsent file"
      by (simp_all add: same_relation_def)
    from q(2) have w: "\<not> io_fails E Op_fwrite" by simp
    from backup_data_file_pages_all [OF q(1) w q(4) n(2) src mode delta pm rel,
        where calg = calg and clevel = clevel and tr = ?tr0 and lg = ?lg0]
    obtain f3 lg3 where pages:
      "backup_data_file_pages E ?f2 prev mode calg clevel cv pv (word_of_nat n) ?tr0 ?lg0 =
         Inr (f3, ?tr0 @ map (\<lambda>i. Ev_fwrite (frame_of E calg clevel (word_of_nat i) (src i))) [0..<n],
              lg3)" by blast
    from backup_data_file_finish_ok [OF q(2), of mode f3 _ lg3]
    obtain f4 tr4 lg4 where fin: "backup_data_file_finish E mode f3
        (?tr0 @ map (\<lambda>i. Ev_fwrite (frame_of E calg clevel (word_of_nat i) (src i))) [0..<n]) lg3
          = Inr (f4, tr4, lg4)"
      and wr: "written tr4 = written
        (?tr0 @ map (\<lambda>i. Ev_fwrite (frame_of E calg clevel (word_of_nat i) (src i))) [0..<n])"
      by blast
    have w0: "written ?tr0 = []" by (simp add: written_def)
    from wr have wr': "written tr4 = ?frames"
      by (simp only: written_simps(2) w0 written_frames append_Nil)
    from pages fin n(1) have copy:
      "backup_data_file_copy E ?f2 prev mode calg clevel cv pv ?nblocks ?tr0 ?lg0 = Inr (f4, tr4, lg4)"
      by (simp add: backup_data_file_copy_def)
    from False have nf: "((mode = BACKUP_MODE_DIFF_PAGE \<or> mode = BACKUP_MODE_DIFF_PTRACK) \<and>
         pagemap_bitmapsize file = PageBitmapIsEmpty \<and>
         exists_in_prev file \<and> \<not> pagemap_isabsent file) = False" by simp
    from q(2,3) have "backup_data_file E file prev mode calg clevel cv pv missing_ok =
        backup_data_file_copy E ?f2 prev mode calg clevel cv pv ?nblocks ?tr0 ?lg0"
      by (simp add: backup_data_file_def Let_def nf split del: if_split)
    with copy wr' show ?thesis by (simp add: backup_frames_def)
  qed
qed

lemma backup_stream_all:
  assumes "\<not> interrupted E" "\<forall>op. \<not> io_fails E op" "fopen_in E = Fopen_ok"
      "\<not> fio_is_remote_file E"
    and "n = file_size file div BLCKSZ" "n < 2 ^ 19"
    and "source_blocks E file cv n src"
    and "mode \<noteq> BACKUP_MODE_DIFF_PTRACK \<or> pv \<ge> 20"
    and "no_delta_skip mode file prev n src"
    and "pagemap_isabsent file \<or> pagemap_selects_all file n"
  shows "backup_stream E file prev mode calg clevel cv pv missing_ok =
           Some (concat (map (\<lambda>i. frame_of E calg clevel (word_of_nat i) (src i)) [0..<n]))"
  using backup_frames_all [OF assms, of calg clevel missing_ok]
  by (simp add: backup_stream_def)

lemma restore_loop_end:
  assumes "\<not> interrupted E" and "\<not> io_fails E Op_ferror_in"
  shows "restore_loop E file v nblocks [] blknum cur_pos write_len tr lg = Inr (write_len, tr, lg)"
  using assms by (subst restore_loop.simps) simp

lemma buf_bytes_prefix: "length xs = n \<Longrightarrow> buf_bytes (xs @ ys) n = xs"
  by (auto simp add: buf_bytes_def nth_append intro: nth_equalityI)

lemma valid_read_page:
  assumes "valid_read E file b cv i p"
  shows "length p = BLCKSZ" and "header_invariants p"
proof -
  from assms show "length p = BLCKSZ" by (simp add: valid_read_def)
  from assms have "class_of_read E file b cv p = PAGE_IS_VALID" by (simp add: valid_read_def)
  then show "header_invariants p"
    by (simp add: class_of_read_def validate_one_page_Some split: if_splits)
qed

lemma block_offset:
  assumes "k < 2 ^ 19"
  shows "unat ((word_of_nat k :: 32 word) * word_of_nat BLCKSZ) = k * BLCKSZ"
proof -
  from assms have u: "unat (word_of_nat k :: 32 word) = k" by (simp add: unat_of_nat)
  from assms have "k * BLCKSZ < 2 ^ 19 * BLCKSZ" by (simp add: BLCKSZ_def)
  then have "unat (word_of_nat k :: 32 word) * BLCKSZ < 2 ^ 32" by (simp add: u BLCKSZ_def)
  from unat_block_offset [OF this] u show ?thesis by simp
qed

lemma restore_loop_frame:
  assumes q: "\<not> interrupted E" "\<forall>op. \<not> io_fails E op" "\<not> fio_is_remote_file E"
    and k: "k < 2 ^ 19"
    and len: "length p = BLCKSZ" and hdr: "header_invariants p"
    and codec: "codec_round_trip E calg clevel p"
    and alg: "compress_alg rf = calg"
    and nb: "nblocks \<le> 0 \<or> int k < nblocks"
    and ord: "\<not> word_of_nat k < blknum"
  shows "restore_loop E rf v nblocks (frame_of E calg clevel (word_of_nat k) p @ rest) blknum
           (k * BLCKSZ) write_len tr lg =
         restore_loop E rf v nblocks rest (word_of_nat k) (k * BLCKSZ + BLCKSZ) (write_len + BLCKSZ)
           (tr @ [Ev_fwrite p]) lg"
proof -
  let ?b = "word_of_nat k :: BlockNumber"
  obtain c cp em where dc: "do_compress E (buf_bytes p BLCKSZ) calg clevel = (c, cp, em)"
    by (cases "do_compress E (buf_bytes p BLCKSZ) calg clevel") auto
  from q(2) have io: "\<not> io_fails E Op_ferror_in" "\<not> io_fails E Op_fseek" "\<not> io_fails E Op_fwrite"
    by simp_all
  from k have uk: "unat ?b = k" by (simp add: unat_of_nat)
  then have "uint ?b = int k" by (simp only: uint_nat)
  with nb have nb': "\<not> (nblocks > 0 \<and> uint ?b \<ge> nblocks)" by auto
  note off = block_offset [OF k]
  show ?thesis
  proof (cases "0 < c \<and> c < int BLCKSZ")
    case True
    then have c: "0 < c" "c < int BLCKSZ" by simp_all
    let ?payload = "buf_bytes cp (nat c) @ map (uninit E) [8 + nat c ..< 8 + MAXALIGN c]"
    from c have "0 \<le> c" "c < 2 ^ 32" by (simp_all add: BLCKSZ_def)
    then have "nat c \<le> MAXALIGN c" by (rule MAXALIGN_ge)
    then have lp: "length ?payload = MAXALIGN c" by simp
    from codec dc True obtain dst em' where
      dd: "do_decompress E (buf_bytes cp (nat c)) calg = (int BLCKSZ, dst, em')"
      and same: "buf_bytes dst BLCKSZ = p"
      by (cases "do_decompress E (buf_bytes cp (nat c)) calg") (auto simp add: codec_round_trip_def)
    have "buf_bytes ?payload (nat c) = buf_bytes cp (nat c)"
      by (rule buf_bytes_prefix) simp
    with dd alg have dd': "do_decompress E (buf_bytes ?payload (nat c)) (compress_alg rf) =
        (int BLCKSZ, dst, em')" by simp
    from True dc have fr: "frame_of E calg clevel ?b p @ rest = header_bytes ?b c @ ?payload @ rest"
      by (simp add: frame_of_def frame_buffer_def)
    from restore_loop_compressed [OF q(1) io(1,2) q(3) ord nb' c lp dd',
        of v rest "k * BLCKSZ" write_len tr lg] off same fr
    show ?thesis by simp
  next
    case False
    then have nc: "(0 < c \<and> c < int BLCKSZ) = False" by simp
    have fr: "frame_of E calg clevel ?b p @ rest = header_bytes ?b (int BLCKSZ) @ p @ rest"
      by (simp only: frame_of_def dc prod.case)
        (simp only: frame_buffer_def nc if_False buf_bytes_id [OF len] append_assoc)
    from hdr have npc: "\<not> page_may_be_compressed p (compress_alg rf) v"
      by (simp add: page_may_be_compressed_iff)
    from restore_loop_raw [OF q(1) io ord nb' len npc, of rest "k * BLCKSZ" write_len tr lg] off fr
    show ?thesis by simp
  qed
qed


lemma restore_loop_frames:
  assumes q: "\<not> interrupted E" "\<forall>op. \<not> io_fails E op" "\<not> fio_is_remote_file E"
    and n: "n < 2 ^ 19"
    and pages: "\<forall>i<n. length (src i) = BLCKSZ \<and> header_invariants (src i) \<and>
                       codec_round_trip E calg clevel (src i)"
    and alg: "compress_alg rf = calg"
    and nb: "nblocks \<le> 0 \<or> int n \<le> nblocks"
  shows "k \<le> n \<Longrightarrow> \<not> word_of_nat k < blknum \<Longrightarrow>
     restore_loop E rf v nblocks
       (concat (map (\<lambda>i. frame_of E calg clevel (word_of_nat i) (src i)) [k..<n]))
       blknum (k * BLCKSZ) write_len tr lg =
     Inr (write_len + (n - k) * BLCKSZ, tr @ map (\<lambda>i. Ev_fwrite (src i)) [k..<n], lg)"
proof (induction "n - k" arbitrary: k blknum write_len tr)
  case 0
  then have "k = n" by simp
  with q show ?case by (simp add: restore_loop_end)
next
  case (Suc m)
  then have kn: "k < n" and m: "m = n - Suc k" and le: "Suc k \<le> n" by simp_all
  from kn n have k19: "k < 2 ^ 19" by simp
  from pages kn have p: "length (src k) = BLCKSZ" "header_invariants (src k)"
    "codec_round_trip E calg clevel (src k)" by simp_all
  from nb kn have nb': "nblocks \<le> 0 \<or> int k < nblocks" by auto
  from n have "n < 2 ^ 32" by simp
  with le have "(word_of_nat k :: 32 word) < word_of_nat (Suc k)"
    by (intro word_of_nat_less32) simp_all
  then have "\<not> (word_of_nat (Suc k) :: 32 word) < word_of_nat k"
    by (rule less_not_sym)
  from Suc.hyps(1) [OF m le this, of "write_len + BLCKSZ" "tr @ [Ev_fwrite (src k)]"]
  have rec: "restore_loop E rf v nblocks
       (concat (map (\<lambda>i. frame_of E calg clevel (word_of_nat i) (src i)) [Suc k..<n]))
       (word_of_nat k) (k * BLCKSZ + BLCKSZ) (write_len + BLCKSZ) (tr @ [Ev_fwrite (src k)]) lg =
     Inr (write_len + BLCKSZ + (n - Suc k) * BLCKSZ,
          (tr @ [Ev_fwrite (src k)]) @ map (\<lambda>i. Ev_fwrite (src i)) [Suc k..<n], lg)"
    by (simp add: add.commute)
  have len: "write_len + BLCKSZ + (n - Suc k) * BLCKSZ = write_len + (n - k) * BLCKSZ"
  proof -
    from kn have "n - k = Suc (n - Suc k)" by simp
    then show ?thesis by simp
  qed
  from restore_loop_frame [OF q k19 p alg nb' Suc.prems(2),
      of v "concat (map (\<lambda>i. frame_of E calg clevel (word_of_nat i) (src i)) [Suc k..<n])"
         write_len tr lg] rec len kn
  show ?case by (simp add: upt_conv_Cons)
qed

lemma apply_events_writes:
  "apply_events (map Ev_fwrite bss) (content, length content) =
     (content @ concat bss, length content + length (concat bss))"
proof (induction bss arbitrary: content)
  case Nil
  then show ?case by (simp add: apply_events_def)
next
  case (Cons bs bss)
  from Cons [of "content @ bs"] show ?case by (simp add: apply_events_def)
qed

lemma restored_frames:
  assumes q: "\<not> interrupted E" "\<forall>op. \<not> io_fails E op" "\<not> fio_is_remote_file E"
    and n: "n < 2 ^ 19"
    and pages: "\<forall>i<n. length (src i) = BLCKSZ \<and> header_invariants (src i) \<and>
                       codec_round_trip E calg clevel (src i)"
    and alg: "compress_alg rf = calg"
    and nb: "nblocks \<le> 0 \<or> int n \<le> nblocks"
  shows "restored E rf v nblocks
           (concat (map (\<lambda>i. frame_of E calg clevel (word_of_nat i) (src i)) [0..<n])) =
         Some (concat (map src [0..<n]))"
proof -
  have "\<not> (word_of_nat 0 :: 32 word) < 0" by simp
  from restore_loop_frames [OF q n pages alg nb _ this, where v = v and write_len = 0
      and tr = "[Ev_fseek 0]" and lg = "[]"]
  have loop: "restore_loop E rf v nblocks
       (concat (map (\<lambda>i. frame_of E calg clevel (word_of_nat i) (src i)) [0..<n]))
       0 0 0 [Ev_fseek 0] [] =
     Inr (n * BLCKSZ, [Ev_fseek 0] @ map Ev_fwrite (map src [0..<n]), [])"
    by (simp add: comp_def)
  have "apply_events ([Ev_fseek 0] @ map Ev_fwrite (map src [0..<n])) ([], 0) =
          apply_events (map Ev_fwrite (map src [0..<n])) ([], length ([] :: byte list))"
    by (simp add: apply_events_def)
  also have "\<dots> = ([] @ concat (map src [0..<n]),
                    length ([] :: byte list) + length (concat (map src [0..<n])))"
    by (rule apply_events_writes)
  finally have "fst (apply_events ([Ev_fseek 0] @ map Ev_fwrite (map src [0..<n])) ([], 0)) =
      concat (map src [0..<n])" by simp
  with loop q(2) show ?thesis
    by (simp add: restored_def restore_data_file_internal_def)
qed


lemma length_source:
  "\<forall>i<n. length (src i) = BLCKSZ \<Longrightarrow> length (concat (map src [0..<n])) = n * BLCKSZ"
  by (induction n) simp_all

lemma reading_env_simps:
  "interrupted reading_env = False"
  "fopen_in reading_env = Fopen_ok"
  "fio_is_remote_file reading_env = False"
  "io_fails reading_env op = False"
  "fio_pread reading_env offset attempt = Pread_bytes (numbered_page (offset div BLCKSZ))"
  by (simp_all add: reading_env_def quiet_env_def)

lemma reading_env_valid_read:
  assumes "i < 2 ^ 19"
  shows "valid_read reading_env f (word_of_nat i) 0 0 (numbered_page i)"
proof -
  have "i * BLCKSZ div BLCKSZ = i" using BLCKSZ_pos by simp
  then show ?thesis
    by (simp add: valid_read_def reading_env_simps block_offset [OF assms] numbered_page_def
        length_page_with_lsn class_of_page_with_lsn)
qed

lemma reading_env_source: "n \<le> 2 ^ 19 \<Longrightarrow> source_blocks reading_env f 0 n numbered_page"
  by (simp add: source_blocks_def reading_env_valid_read)

lemma no_codec_round_trip: "codec_round_trip E NONE_COMPRESS clevel p"
  by (simp add: codec_round_trip_def do_compress_def)

text \<open>
  C1, as amended. A source file of \<open>n\<close> whole blocks (\<open>n < 2\<^sup>1\<^sup>9\<close>, so that the offsets fit
  32 bits), each read whole at the first attempt and classified valid, is backed up by
  \<^const>\<open>backup_data_file\<close> in a local run in which nothing fails, in FULL or PAGE mode, in
  PTRACK mode with a tracker from 2.0 on, or in DELTA mode when no page is older than the
  parent backup; the page map is absent or selects every block. The stream is restored by
  \<^const>\<open>restore_data_file_internal\<close> to an empty destination, with the algorithm of the
  backup, which gives back the pages it compressed. Then both calls succeed and the
  destination holds the blocks of the source in their order, which are all its bytes.
\<close>

theorem backup_restore_round_trip:
  assumes "\<not> interrupted E" and "\<forall>op. \<not> io_fails E op" and "fopen_in E = Fopen_ok"
    and "\<not> fio_is_remote_file E"
    and "file_size file = n * BLCKSZ" and "n < 2 ^ 19"
    and "source_blocks E file cv n src"
    and "mode \<noteq> BACKUP_MODE_DIFF_PTRACK \<or> pv \<ge> 20"
    and "no_delta_skip mode file prev n src"
    and "pagemap_isabsent file \<or> pagemap_selects_all file n"
    and "\<forall>i<n. codec_round_trip E calg clevel (src i)"
    and "compress_alg rf = calg"
    and "nblocks \<le> 0 \<or> int n \<le> nblocks"
  shows "Option.bind (backup_stream E file prev mode calg clevel cv pv missing_ok)
           (restored E rf v nblocks) = Some (concat (map src [0..<n])) \<and>
         length (concat (map src [0..<n])) = file_size file"
proof -
  from assms(5) have n: "n = file_size file div BLCKSZ" using BLCKSZ_pos by simp
  have pages: "\<forall>i<n. length (src i) = BLCKSZ \<and> header_invariants (src i) \<and>
                       codec_round_trip E calg clevel (src i)"
    using assms(7,11) by (auto simp add: source_blocks_def dest: valid_read_page)
  from backup_stream_all [OF assms(1-4) n assms(6-10), of calg clevel missing_ok]
    restored_frames [OF assms(1,2,4,6) pages assms(12,13), of v]
  have "Option.bind (backup_stream E file prev mode calg clevel cv pv missing_ok)
           (restored E rf v nblocks) = Some (concat (map src [0..<n]))" by simp
  moreover from pages have "length (concat (map src [0..<n])) = n * BLCKSZ"
    by (intro length_source) simp
  ultimately show ?thesis using assms(5) by simp
qed

theorem backup_restore_round_trip_witness:
  "Option.bind
     (backup_stream reading_env (plain_file\<lparr>file_size := 2 * BLCKSZ, pagemap_isabsent := True\<rparr>)
        0 BACKUP_MODE_FULL NONE_COMPRESS 1 0 0 False)
     (restored reading_env plain_file 20025 0) = Some (concat (map numbered_page [0..<2])) \<and>
   length (concat (map numbered_page [0..<2])) =
     file_size (plain_file\<lparr>file_size := 2 * BLCKSZ, pagemap_isabsent := True\<rparr>)"
proof -
  let ?f = "plain_file\<lparr>file_size := 2 * BLCKSZ, pagemap_isabsent := True\<rparr>"
  have q: "\<not> interrupted reading_env" "\<forall>op. \<not> io_fails reading_env op"
    "fopen_in reading_env = Fopen_ok" "\<not> fio_is_remote_file reading_env"
    by (simp_all add: reading_env_simps)
  have sz: "file_size ?f = 2 * BLCKSZ" by simp
  have n: "(2 :: nat) < 2 ^ 19" by simp
  have src: "source_blocks reading_env ?f 0 2 numbered_page"
    by (rule reading_env_source) simp
  have mode: "BACKUP_MODE_FULL \<noteq> BACKUP_MODE_DIFF_PTRACK \<or> (0 :: int) \<ge> 20" by simp
  have delta: "no_delta_skip BACKUP_MODE_FULL ?f 0 2 numbered_page"
    by (simp add: no_delta_skip_def)
  have pm: "pagemap_isabsent ?f \<or> pagemap_selects_all ?f 2" by simp
  have codec: "\<forall>i<2. codec_round_trip reading_env NONE_COMPRESS 1 (numbered_page i)"
    by (simp add: no_codec_round_trip)
  have alg: "compress_alg plain_file = NONE_COMPRESS" by (simp add: plain_file_def)
  have nb: "(0 :: int) \<le> 0 \<or> int 2 \<le> 0" by simp
  from backup_restore_round_trip [OF q sz n src mode delta pm codec alg nb, of False 20025]
  show ?thesis .
qed


lemma backup_loop_skip_last:
  assumes "\<not> interrupted E" and "valid_read E f b cv 0 p" and "exists_in_prev f"
    and "PageXLogRecPtrGet p \<noteq> 0" and "PageXLogRecPtrGet p < prev"
    and "b < nblocks" and "\<not> b + 1 < nblocks"
  shows "backup_loop E prev BACKUP_MODE_DIFF_DELTA calg clevel cv pv nblocks False f b iter pg tr lg =
           Inr (f\<lparr>read_size := read_size f + int BLCKSZ\<rparr>, tr,
                lg @ [(VERBOSE, Msg_block ''Skipping blknum'' b)])"
proof -
  have "BACKUP_MODE_DIFF_DELTA \<noteq> BACKUP_MODE_DIFF_PTRACK \<or> pv \<ge> 20" by simp
  from prepare_page_first_read_valid [OF assms(1) this assms(2), of prev pg True] assms(3,4,5)
  have pp: "prepare_page E f prev b BACKUP_MODE_DIFF_DELTA pg True cv pv =
      Inr (SkipCurrentPage, p, [(VERBOSE, Msg_block ''Skipping blknum'' b)])" by simp
  from assms(6) show ?thesis
    by (subst backup_loop.simps)
      (simp add: pp Let_def backup_loop_past [OF assms(7)] split del: if_split)
qed

lemma delta_backup_of_old_page:
  "backup_frames reading_env (plain_file\<lparr>pagemap_isabsent := True\<rparr>) 2 BACKUP_MODE_DIFF_DELTA
     NONE_COMPRESS 1 0 0 False = Some []"
proof -
  let ?f = "plain_file\<lparr>pagemap_isabsent := True\<rparr>"
  have vr: "valid_read reading_env f 0 0 0 (numbered_page 0)" for f
    using reading_env_valid_read [of 0 f] by simp
  have lsn: "PageXLogRecPtrGet (numbered_page 0) = 1"
    by (simp add: numbered_page_def page_with_lsn_lsn)
  have loop: "backup_loop reading_env 2 BACKUP_MODE_DIFF_DELTA NONE_COMPRESS 1 0 0 1 False f 0 0 pg tr lg =
           Inr (f\<lparr>read_size := read_size f + int BLCKSZ\<rparr>, tr,
                lg @ [(VERBOSE, Msg_block ''Skipping blknum'' 0)])"
    if "exists_in_prev f" for f pg tr lg
    by (rule backup_loop_skip_last [where p = "numbered_page 0"])
      (simp_all add: reading_env_simps vr that lsn)
  have up: "use_pagemap (f\<lparr>pagemap_isabsent := True\<rparr>) = False" for f
    by (simp add: use_pagemap_def)
  let ?f2 = "?f\<lparr>n_blocks := sint (1 :: BlockNumber), read_size := 0, write_size := 0,
                 uncompressed_size := 0, crc := INIT_FILE_CRC32 reading_env True\<rparr>"
  have ex: "exists_in_prev ?f2" by (simp add: plain_file_def)
  have up2: "use_pagemap ?f2 = False" by (simp add: use_pagemap_def)
  have pages: "backup_data_file_pages reading_env ?f2 2 BACKUP_MODE_DIFF_DELTA NONE_COMPRESS 1 0 0 1
      [Ev_fopen_in, Ev_fopen_out, Ev_chmod] [] =
      Inr (?f2\<lparr>read_size := read_size ?f2 + int BLCKSZ\<rparr>, [Ev_fopen_in, Ev_fopen_out, Ev_chmod],
           [] @ [(VERBOSE, Msg_block ''Skipping blknum'' 0)])"
  proof -
    have pex: "exists_in_prev plain_file" by (simp add: plain_file_def)
    show ?thesis
      unfolding backup_data_file_pages_def up2 by (simp add: reading_env_simps loop pex)
  qed
  from backup_data_file_finish_ok [of reading_env BACKUP_MODE_DIFF_DELTA
      "?f2\<lparr>read_size := read_size ?f2 + int BLCKSZ\<rparr>" "[Ev_fopen_in, Ev_fopen_out, Ev_chmod]"
      "[] @ [(VERBOSE, Msg_block ''Skipping blknum'' 0)]"]
  obtain f4 tr4 lg4 where fin: "backup_data_file_finish reading_env BACKUP_MODE_DIFF_DELTA
      (?f2\<lparr>read_size := read_size ?f2 + int BLCKSZ\<rparr>) [Ev_fopen_in, Ev_fopen_out, Ev_chmod]
      ([] @ [(VERBOSE, Msg_block ''Skipping blknum'' 0)]) = Inr (f4, tr4, lg4)"
    and wr: "written tr4 = written [Ev_fopen_in, Ev_fopen_out, Ev_chmod]"
    by (auto simp add: reading_env_simps)
  from wr have wr': "written tr4 = []" by (simp add: written_def)
  from pages fin have copy: "backup_data_file_copy reading_env ?f2 2 BACKUP_MODE_DIFF_DELTA
      NONE_COMPRESS 1 0 0 1 [Ev_fopen_in, Ev_fopen_out, Ev_chmod] [] = Inr (f4, tr4, lg4)"
    by (simp add: backup_data_file_copy_def)
  have sz: "file_size plain_file mod BLCKSZ = 0" "file_size plain_file div BLCKSZ = 1"
    by (simp_all add: plain_file_def BLCKSZ_def)
  have "backup_data_file reading_env ?f 2 BACKUP_MODE_DIFF_DELTA NONE_COMPRESS 1 0 0 False =
      backup_data_file_copy reading_env ?f2 2 BACKUP_MODE_DIFF_DELTA
      NONE_COMPRESS 1 0 0 1 [Ev_fopen_in, Ev_fopen_out, Ev_chmod] []"
    by (simp add: backup_data_file_def Let_def sz reading_env_simps split del: if_split)
  with copy wr' show ?thesis by (simp add: backup_frames_def)
qed

text \<open>
  C7. In a local run, the block numbers of the frames that \<^const>\<open>backup_data_file\<close> has
  written, in the order in which it wrote them, strictly increase: whether it walks the
  page map or the blocks from 0 to \<^verbatim>\<open>nblocks\<close>, and whatever the pages, the modes and the
  codecs are.
\<close>

theorem backup_frames_ascending:
  assumes "\<not> fio_is_remote_file E"
    and "backup_frames E file prev mode calg clevel cv pv missing_ok = Some frames"
  shows "sorted_wrt (<) (map header_block frames)"
proof -
  from assms(2) obtain file' tr lg where
    run: "backup_data_file E file prev mode calg clevel cv pv missing_ok = Inr (file', tr, lg)"
    and frames: "frames = written tr"
    by (auto simp add: backup_frames_def split: sum.splits)
  from backup_data_file_sorted [OF assms(1) run] frames show ?thesis by simp
qed

theorem backup_frames_ascending_witness:
  "backup_frames reading_env
     (plain_file\<lparr>file_size := 2 * BLCKSZ, pagemap_bitmap := Some [3], pagemap_bitmapsize := 1\<rparr>)
     0 BACKUP_MODE_DIFF_PAGE NONE_COMPRESS 1 0 0 False =
     Some (map (\<lambda>i. frame_of reading_env NONE_COMPRESS 1 (word_of_nat i) (numbered_page i)) [0..<2]) \<and>
   sorted_wrt (<) (map header_block
     (map (\<lambda>i. frame_of reading_env NONE_COMPRESS 1 (word_of_nat i) (numbered_page i)) [0..<2]))"
proof -
  let ?f = "plain_file\<lparr>file_size := 2 * BLCKSZ, pagemap_bitmap := Some [3], pagemap_bitmapsize := 1\<rparr>"
  have q: "\<not> interrupted reading_env" "\<forall>op. \<not> io_fails reading_env op"
    "fopen_in reading_env = Fopen_ok" "\<not> fio_is_remote_file reading_env"
    by (simp_all add: reading_env_simps)
  have sz: "2 = file_size ?f div BLCKSZ" using BLCKSZ_pos by simp
  have n: "(2 :: nat) < 2 ^ 19" by simp
  have src: "source_blocks reading_env ?f 0 2 numbered_page"
    by (rule reading_env_source) simp
  have mode: "BACKUP_MODE_DIFF_PAGE \<noteq> BACKUP_MODE_DIFF_PTRACK \<or> (0 :: int) \<ge> 20" by simp
  have delta: "no_delta_skip BACKUP_MODE_DIFF_PAGE ?f 0 2 numbered_page"
    by (simp add: no_delta_skip_def)
  have "pagemap_selects_all ?f 2"
    by (auto simp add: pagemap_selects_all_def less_2_cases_iff)
  then have pm: "pagemap_isabsent ?f \<or> pagemap_selects_all ?f 2" by simp
  note run = backup_frames_all [OF q sz n src mode delta pm, of NONE_COMPRESS 1 False]
  from backup_frames_ascending [OF q(4) run] run show ?thesis by simp
qed

text \<open>
  The round trip as the specification states it, for every source file whose blocks are
  valid, fails in two ways. A file of one valid block and one more byte is restored as its
  first block only: the backup copies the whole blocks of the file. And a DELTA backup of a
  file of one valid block whose lsn, 1, is below the start lsn of the parent, 2, writes no
  frame, so that its restore writes nothing.
\<close>


theorem round_trip_counterexample:
  "valid_read reading_env (plain_file\<lparr>file_size := BLCKSZ + 1, pagemap_isabsent := True\<rparr>) 0 0 0
     (numbered_page 0) \<and>
   Option.bind
     (backup_stream reading_env (plain_file\<lparr>file_size := BLCKSZ + 1, pagemap_isabsent := True\<rparr>)
        0 BACKUP_MODE_FULL NONE_COMPRESS 1 0 0 False)
     (restored reading_env plain_file 20025 0) = Some (numbered_page 0) \<and>
   length (numbered_page 0) <
     file_size (plain_file\<lparr>file_size := BLCKSZ + 1, pagemap_isabsent := True\<rparr>) \<and>
   valid_read reading_env (plain_file\<lparr>pagemap_isabsent := True\<rparr>) 0 0 0 (numbered_page 0) \<and>
   file_size (plain_file\<lparr>pagemap_isabsent := True\<rparr>) = BLCKSZ \<and>
   Option.bind
     (backup_stream reading_env (plain_file\<lparr>pagemap_isabsent := True\<rparr>)
        2 BACKUP_MODE_DIFF_DELTA NONE_COMPRESS 1 0 0 False)
     (restored reading_env plain_file 20025 0) = Some []"
proof -
  let ?f = "plain_file\<lparr>file_size := BLCKSZ + 1, pagemap_isabsent := True\<rparr>"
  have q: "\<not> interrupted reading_env" "\<forall>op. \<not> io_fails reading_env op"
    "fopen_in reading_env = Fopen_ok" "\<not> fio_is_remote_file reading_env"
    by (simp_all add: reading_env_simps)
  have vr: "valid_read reading_env f 0 0 0 (numbered_page 0)" for f
    using reading_env_valid_read [of 0 f] by simp
  have alg: "compress_alg plain_file = NONE_COMPRESS" by (simp add: plain_file_def)
  have nb: "(0 :: int) \<le> 0 \<or> int n \<le> 0" for n by simp
  have pages: "\<forall>i<n. length (numbered_page i) = BLCKSZ \<and> header_invariants (numbered_page i) \<and>
                 codec_round_trip reading_env NONE_COMPRESS 1 (numbered_page i)" for n
    by (simp add: numbered_page_def length_page_with_lsn page_with_lsn_sound no_codec_round_trip)
  have sz: "1 = file_size ?f div BLCKSZ" by (simp add: BLCKSZ_def)
  have n: "(1 :: nat) < 2 ^ 19" "(0 :: nat) < 2 ^ 19" by simp_all
  have src: "source_blocks reading_env ?f 0 1 numbered_page"
    by (rule reading_env_source) simp
  have mode: "BACKUP_MODE_FULL \<noteq> BACKUP_MODE_DIFF_PTRACK \<or> (0 :: int) \<ge> 20" by simp
  have delta: "no_delta_skip BACKUP_MODE_FULL ?f 0 1 numbered_page"
    by (simp add: no_delta_skip_def)
  have pm: "pagemap_isabsent ?f \<or> pagemap_selects_all ?f 1" by simp
  from backup_stream_all [OF q sz n(1) src mode delta pm, of NONE_COMPRESS 1 False]
    restored_frames [OF q(1,2,4) n(1) pages alg nb, of 20025]
  have a: "Option.bind (backup_stream reading_env ?f 0 BACKUP_MODE_FULL NONE_COMPRESS 1 0 0 False)
     (restored reading_env plain_file 20025 0) = Some (numbered_page 0)" by simp
  have l: "length (numbered_page 0) < file_size ?f"
    by (simp add: numbered_page_def length_page_with_lsn)
  have fs: "file_size (plain_file\<lparr>pagemap_isabsent := True\<rparr>) = BLCKSZ"
    by (simp add: plain_file_def BLCKSZ_def)
  from delta_backup_of_old_page restored_frames [OF q(1,2,4) n(2) pages alg nb, of 20025]
  have b: "Option.bind
     (backup_stream reading_env (plain_file\<lparr>pagemap_isabsent := True\<rparr>)
        2 BACKUP_MODE_DIFF_DELTA NONE_COMPRESS 1 0 0 False)
     (restored reading_env plain_file 20025 0) = Some []"
    by (simp add: backup_stream_def)
  show ?thesis
    by (intro conjI) (rule vr, rule a, rule l, rule vr, rule fs, rule b)
qed


end
